theory Spec2Isabelle
  imports Main "HOL-Library.AList" "HOL-Library.Multiset"
begin

section \<open>The query-string transform of the taxi service application\<close>

text \<open>
  The template tag \<^verbatim>\<open>query_transform\<close> of
  \<^verbatim>\<open>taxi/templatetags/query_transform.py\<close>:
  \<^verbatim>\<open>
  def query_transform(request, **kwargs):
      updated = request.GET.copy()
      for k, v in kwargs.items():
          if v is not None:
              updated[k] = v
          else:
              updated.pop(k, 0)
      return updated.urlencode()
  \<close>
  The function itself is embedded from the source. The container it works on (the
  request's \<^verbatim>\<open>QueryDict\<close>) and the encoder belong to the web framework; they
  are modelled here as far as the function uses them: \<^verbatim>\<open>copy\<close>,
  \<^verbatim>\<open>__setitem__\<close>, \<^verbatim>\<open>pop\<close> and \<^verbatim>\<open>urlencode\<close>.
\<close>

subsection \<open>Python values and their string form\<close>

text \<open>
  The values a call site passes as keyword arguments: \<^verbatim>\<open>None\<close>, strings,
  integers (unbounded) and booleans. A Python string is represented by the bytes of its
  UTF-8 encoding, which is what the encoder works on.
\<close>

datatype pyval = PNone | PStr string | PInt int | PBool bool

text \<open>The decimal digit of a number below ten.\<close>

definition digit_char :: "nat \<Rightarrow> char" where
  "digit_char n = ''0123456789'' ! n"

fun digits10 :: "nat \<Rightarrow> string" where
  "digits10 n =
     (if n < 10 then [digit_char n] else digits10 (n div 10) @ [digit_char (n mod 10)])"

declare digits10.simps [simp del]

text \<open>\<^verbatim>\<open>str(v)\<close>, applied by \<^verbatim>\<open>urlencode\<close> to every stored value.\<close>

fun py_str :: "pyval \<Rightarrow> string" where
  "py_str PNone = ''None''"
| "py_str (PStr s) = s"
| "py_str (PInt i) = (if i < 0 then CHR ''-'' # digits10 (nat (- i)) else digits10 (nat i))"
| "py_str (PBool b) = (if b then ''True'' else ''False'')"

subsection \<open>The parameter container\<close>

text \<open>
  A \<^verbatim>\<open>QueryDict\<close> is a dictionary from a key to the list of its values, in
  insertion order, with a flag saying whether it may be changed. The request's own
  \<^verbatim>\<open>request.GET\<close> is immutable; \<^verbatim>\<open>copy()\<close> returns a mutable one.
\<close>

record querydict =
  entries :: "(string \<times> pyval list) list"
  mutable :: bool

text \<open>The \<^verbatim>\<open>AttributeError\<close> an immutable \<^verbatim>\<open>QueryDict\<close> raises on a write.\<close>

datatype error = ImmutableQueryDict

type_synonym kwargs = "(string \<times> pyval) list"

definition keys :: "querydict \<Rightarrow> string set" where
  "keys d = fst ` set (entries d)"

text \<open>\<^verbatim>\<open>d.getlist(k)\<close> as an option: the multi-map view of the container.\<close>

definition getlist :: "querydict \<Rightarrow> string \<Rightarrow> pyval list option" where
  "getlist d k = map_of (entries d) k"

text \<open>\<^verbatim>\<open>QueryDict.copy()\<close>: a new, mutable container with the same entries.\<close>

definition copy_qd :: "querydict \<Rightarrow> querydict" where
  "copy_qd d = \<lparr>entries = entries d, mutable = True\<rparr>"

text \<open>
  \<^verbatim>\<open>d[k] = v\<close>: the key keeps its place if it is there and is appended otherwise;
  its list of values becomes the one value \<open>v\<close>, stored as it is.
\<close>

definition setitem :: "querydict \<Rightarrow> string \<Rightarrow> pyval \<Rightarrow> error + querydict" where
  "setitem d k v =
     (if mutable d then Inr (d\<lparr>entries := AList.update k [v] (entries d)\<rparr>)
      else Inl ImmutableQueryDict)"

text \<open>
  \<^verbatim>\<open>d.pop(k, 0)\<close>: with a default, a missing key is no error. The value it returns
  is dropped by the caller, so the model returns the container only.
\<close>

definition pop :: "querydict \<Rightarrow> string \<Rightarrow> error + querydict" where
  "pop d k =
     (if mutable d then Inr (d\<lparr>entries := AList.delete k (entries d)\<rparr>)
      else Inl ImmutableQueryDict)"

subsection \<open>URL encoding\<close>

text \<open>
  \<^verbatim>\<open>urlencode\<close> quotes key and value with \<^verbatim>\<open>quote_plus\<close>: letters, digits and
  \<^verbatim>\<open>_.-~\<close> stay, a space becomes \<^verbatim>\<open>+\<close>, any other byte becomes \<^verbatim>\<open>%XX\<close> with
  upper-case hexadecimal digits.
\<close>

definition always_safe :: "char \<Rightarrow> bool" where
  "always_safe c =
     (c \<in> set ''ABCDEFGHIJKLMNOPQRSTUVWXYZabcdefghijklmnopqrstuvwxyz0123456789_.-~'')"

text \<open>The upper-case hexadecimal digit of a number below sixteen (a half byte).\<close>

definition hexdigit :: "nat \<Rightarrow> char" where
  "hexdigit n = ''0123456789ABCDEF'' ! n"

definition quote_byte :: "char \<Rightarrow> string" where
  "quote_byte c =
     (if always_safe c then [c]
      else if c = CHR '' '' then ''+''
      else [CHR ''%'', hexdigit (of_char c div 16), hexdigit (of_char c mod 16)])"

definition quote_plus :: "string \<Rightarrow> string" where
  "quote_plus s = concat (map quote_byte s)"

definition encode_pair :: "string \<Rightarrow> pyval \<Rightarrow> string" where
  "encode_pair k v = quote_plus k @ ''='' @ quote_plus (py_str v)"

text \<open>\<^verbatim>\<open>sep.join(parts)\<close>.\<close>

fun join :: "string \<Rightarrow> string list \<Rightarrow> string" where
  "join sep [] = []"
| "join sep [p] = p"
| "join sep (p # q # ps) = p @ sep @ join sep (q # ps)"

text \<open>The (key, value) pairs of a container, one per value, in the order of iteration.\<close>

definition pairs :: "(string \<times> pyval list) list \<Rightarrow> (string \<times> pyval) list" where
  "pairs es = concat (map (\<lambda>(k, vs). map (Pair k) vs) es)"

definition urlencode :: "querydict \<Rightarrow> string" where
  "urlencode d = join ''&'' (map (\<lambda>(k, v). encode_pair k v) (pairs (entries d)))"

subsection \<open>The function\<close>

text \<open>The loop over \<^verbatim>\<open>kwargs.items()\<close>, on the container \<^verbatim>\<open>updated\<close>.\<close>

fun update_loop :: "querydict \<Rightarrow> kwargs \<Rightarrow> error + querydict" where
  "update_loop updated [] = Inr updated"
| "update_loop updated ((k, v) # kw) =
     (case (if v \<noteq> PNone then setitem updated k v else pop updated k) of
        Inl e \<Rightarrow> Inl e
      | Inr updated' \<Rightarrow> update_loop updated' kw)"

definition query_transform :: "querydict \<Rightarrow> kwargs \<Rightarrow> error + string" where
  "query_transform GET kw =
     (case update_loop (copy_qd GET) kw of
        Inl e \<Rightarrow> Inl e
      | Inr updated \<Rightarrow> Inr (urlencode updated))"

subsection \<open>The same function on a store of objects\<close>

text \<open>
  Python containers are objects, reached through references, and \<^verbatim>\<open>__setitem__\<close>
  and \<^verbatim>\<open>pop\<close> change the object in place. To say what happens to the caller's
  \<^verbatim>\<open>request.GET\<close> the objects live in a store, a list indexed by address;
  \<^verbatim>\<open>copy()\<close> allocates a new object at the end of it. An address is that of a live
  object when it is below the length of the store.
\<close>

type_synonym store = "querydict list"

definition copy_st :: "store \<Rightarrow> nat \<Rightarrow> store \<times> nat" where
  "copy_st h a = (h @ [copy_qd (h ! a)], length h)"

definition setitem_st :: "store \<Rightarrow> nat \<Rightarrow> string \<Rightarrow> pyval \<Rightarrow> error + store" where
  "setitem_st h a k v =
     (case setitem (h ! a) k v of Inl e \<Rightarrow> Inl e | Inr d \<Rightarrow> Inr (h[a := d]))"

definition pop_st :: "store \<Rightarrow> nat \<Rightarrow> string \<Rightarrow> error + store" where
  "pop_st h a k =
     (case pop (h ! a) k of Inl e \<Rightarrow> Inl e | Inr d \<Rightarrow> Inr (h[a := d]))"

text \<open>
  The loop, on the object at address \<open>updated\<close>. An error leaves the store as it was when
  the exception was raised.
\<close>

fun update_loop_st :: "store \<Rightarrow> nat \<Rightarrow> kwargs \<Rightarrow> store \<times> error option" where
  "update_loop_st h updated [] = (h, None)"
| "update_loop_st h updated ((k, v) # kw) =
     (case (if v \<noteq> PNone then setitem_st h updated k v else pop_st h updated k) of
        Inl e \<Rightarrow> (h, Some e)
      | Inr h' \<Rightarrow> update_loop_st h' updated kw)"

text \<open>\<open>GET\<close> is the address of \<^verbatim>\<open>request.GET\<close>; the result is the final store and
  what the call returns or raises.\<close>

definition query_transform_st :: "store \<Rightarrow> nat \<Rightarrow> kwargs \<Rightarrow> store \<times> (error + string)" where
  "query_transform_st h GET kw =
     (let (h1, updated) = copy_st h GET
      in case update_loop_st h1 updated kw of
           (h2, Some e) \<Rightarrow> (h2, Inl e)
         | (h2, None) \<Rightarrow> (h2, Inr (urlencode (h2 ! updated))))"

subsection \<open>Decoding a query string\<close>

text \<open>
  Modelled from the spec: the decoding of a query string into a parameter multi-map,
  which the properties of the specification are stated with and the source file does
  not contain. It is the reading the web framework gives a request's query string:
  split at \<^verbatim>\<open>&\<close>, skip empty pieces, split each piece at its first \<^verbatim>\<open>=\<close> (a
  piece without one has the empty value; blank values are kept), turn \<^verbatim>\<open>+\<close> into a
  space, undo the percent-encoding, and append each value to the list of its key.
\<close>

text \<open>\<^verbatim>\<open>s.split(sep)\<close> for a one-character separator: never empty.\<close>

fun split_on :: "char \<Rightarrow> string \<Rightarrow> string list" where
  "split_on sep [] = [[]]"
| "split_on sep (c # cs) =
     (if c = sep then [] # split_on sep cs
      else (case split_on sep cs of [] \<Rightarrow> [[c]] | p # ps \<Rightarrow> (c # p) # ps))"

definition hexval :: "char \<Rightarrow> nat option" where
  "hexval c =
     (let n = (of_char c :: nat)
      in if 48 \<le> n \<and> n \<le> 57 then Some (n - 48)
         else if 65 \<le> n \<and> n \<le> 70 then Some (n - 55)
         else if 97 \<le> n \<and> n \<le> 102 then Some (n - 87)
         else None)"

text \<open>
  \<^verbatim>\<open>unquote\<close>: a \<^verbatim>\<open>%\<close> followed by two hexadecimal digits (of either case) is the
  byte they denote; any other \<^verbatim>\<open>%\<close> stays as it is.
\<close>

fun unquote :: "string \<Rightarrow> string" where
  "unquote [] = []"
| "unquote (c # cs) =
     (if c = CHR ''%'' then
        (case cs of
           h1 # h2 # rest \<Rightarrow>
             (case (hexval h1, hexval h2) of
                (Some a, Some b) \<Rightarrow> char_of (16 * a + b) # unquote rest
              | _ \<Rightarrow> c # unquote cs)
         | _ \<Rightarrow> c # unquote cs)
      else c # unquote cs)"

definition plus_to_space :: "string \<Rightarrow> string" where
  "plus_to_space s = map (\<lambda>c. if c = CHR ''+'' then CHR '' '' else c) s"

definition unquote_plus :: "string \<Rightarrow> string" where
  "unquote_plus s = unquote (plus_to_space s)"

text \<open>One piece \<^verbatim>\<open>name=value\<close>, split at the first \<^verbatim>\<open>=\<close>.\<close>

definition parse_piece :: "string \<Rightarrow> string \<times> string" where
  "parse_piece p =
     (unquote_plus (takeWhile (\<lambda>c. c \<noteq> CHR ''='') p),
      unquote_plus (drop 1 (dropWhile (\<lambda>c. c \<noteq> CHR ''='') p)))"

definition parse_qsl :: "string \<Rightarrow> (string \<times> string) list" where
  "parse_qsl qs = map parse_piece (filter (\<lambda>p. p \<noteq> []) (split_on CHR ''&'' qs))"

text \<open>\<^verbatim>\<open>appendlist\<close>: the value joins the list of its key; a new key goes to the end.\<close>

fun appendlist ::
  "(string \<times> pyval list) list \<Rightarrow> string \<Rightarrow> pyval \<Rightarrow> (string \<times> pyval list) list" where
  "appendlist [] k v = [(k, [v])]"
| "appendlist ((k', vs) # es) k v =
     (if k' = k then (k', vs @ [v]) # es else (k', vs) # appendlist es k v)"

definition from_pairs :: "(string \<times> string) list \<Rightarrow> (string \<times> pyval list) list" where
  "from_pairs ps = foldl (\<lambda>es (k, v). appendlist es k (PStr v)) [] ps"

definition decode :: "string \<Rightarrow> querydict" where
  "decode qs = \<lparr>entries = from_pairs (parse_qsl qs), mutable = False\<rparr>"

subsection \<open>Well-formed containers\<close>

text \<open>A Python dictionary holds each key once.\<close>

definition is_dict :: "querydict \<Rightarrow> bool" where
  "is_dict d = distinct (map fst (entries d))"

text \<open>
  The parameters of a request, as parsed from its URL: a dictionary in which every key
  has at least one value and every value is a string.
\<close>

definition parsed :: "querydict \<Rightarrow> bool" where
  "parsed d =
     (is_dict d \<and> list_all (\<lambda>(k, vs). vs \<noteq> [] \<and> list_all (\<lambda>v. case v of PStr s \<Rightarrow> True | _ \<Rightarrow> False) vs)
        (entries d))"

text \<open>The string form of every value of a container.\<close>

definition stringified :: "(string \<times> pyval list) list \<Rightarrow> (string \<times> pyval list) list" where
  "stringified es = map (\<lambda>(k, vs). (k, map (\<lambda>v. PStr (py_str v)) vs)) es"

subsection \<open>The call and the exceptions it can raise\<close>

text \<open>
  The definitions above take a string as the bytes of its UTF-8 encoding, which is all
  the content of the returned string depends on. They cannot say when the call raises:
  a Python string is a sequence of code points, \<^verbatim>\<open>urlencode\<close> encodes every key and
  every \<^verbatim>\<open>str(v)\<close> with \<^verbatim>\<open>.encode('utf-8')\<close>, and a string that holds a surrogate
  code point has no encoding. The call is therefore modelled once more on Python's own
  strings, with every step that can raise:
  \<^item> binding the arguments of \<^verbatim>\<open>def query_transform(request, **kwargs)\<close>: a keyword
    named \<^verbatim>\<open>request\<close> is a second value for the first parameter, a
    \<^verbatim>\<open>TypeError\<close>;
  \<^item> a write to an immutable container, an \<^verbatim>\<open>AttributeError\<close>;
  \<^item> \<^verbatim>\<open>str(v)\<close> of an integer with more decimal digits than the interpreter's limit
    for the conversion, a \<^verbatim>\<open>ValueError\<close>; the limit is a setting of the interpreter
    and a parameter here, \<open>0\<close> for no limit;
  \<^item> \<^verbatim>\<open>.encode('utf-8')\<close> of a string with a surrogate, a \<^verbatim>\<open>UnicodeEncodeError\<close>.
\<close>

type_synonym pystr = "nat list"

datatype exception = TypeError | AttributeError | ValueError | UnicodeEncodeError

text \<open>
  The objects passed as values. \<open>OScalar t\<close> is any other scalar, a float for one,
  given by the text \<open>t\<close> that \<^verbatim>\<open>str()\<close> returns for it: nothing else of a stored value
  is used.
\<close>

datatype pyobj = ONone | OStr pystr | OInt int | OBool bool | OScalar pystr

record params =
  items :: "(pystr \<times> pyobj list) list"
  writable :: bool

text \<open>The code points of an ASCII text.\<close>

definition ascii :: "string \<Rightarrow> pystr" where
  "ascii s = map of_char s"

text \<open>The number of decimal digits of an integer, its sign apart.\<close>

definition int_digits :: "int \<Rightarrow> nat" where
  "int_digits i = length (digits10 (nat \<bar>i\<bar>))"

text \<open>\<^verbatim>\<open>str(v)\<close>, under the limit \<open>L\<close> on the digits of an integer.\<close>

fun str_obj :: "nat \<Rightarrow> pyobj \<Rightarrow> exception + pystr" where
  "str_obj L ONone = Inr (ascii (py_str PNone))"
| "str_obj L (OStr s) = Inr s"
| "str_obj L (OInt i) =
     (if 0 < L \<and> L < int_digits i then Inl ValueError else Inr (ascii (py_str (PInt i))))"
| "str_obj L (OBool b) = Inr (ascii (py_str (PBool b)))"
| "str_obj L (OScalar t) = Inr t"

text \<open>
  The UTF-8 encoding of one code point. The surrogates \<open>0xD800\<close> to \<open>0xDFFF\<close> have
  none; numbers from \<open>0x110000\<close> are not code points, and no Python string holds one.
\<close>

definition utf8_cp :: "nat \<Rightarrow> exception + string" where
  "utf8_cp c =
     (if c < 0x80 then Inr [char_of c]
      else if c < 0x800 then Inr [char_of (0xC0 + c div 64), char_of (0x80 + c mod 64)]
      else if 0xD800 \<le> c \<and> c \<le> 0xDFFF then Inl UnicodeEncodeError
      else if c < 0x10000 then
        Inr [char_of (0xE0 + c div 4096), char_of (0x80 + c div 64 mod 64),
             char_of (0x80 + c mod 64)]
      else if c < 0x110000 then
        Inr [char_of (0xF0 + c div 262144), char_of (0x80 + c div 4096 mod 64),
             char_of (0x80 + c div 64 mod 64), char_of (0x80 + c mod 64)]
      else Inl UnicodeEncodeError)"

text \<open>\<^verbatim>\<open>s.encode('utf-8')\<close>.\<close>

fun utf8_encode :: "pystr \<Rightarrow> exception + string" where
  "utf8_encode [] = Inr []"
| "utf8_encode (c # cs) =
     (case utf8_cp c of
        Inl e \<Rightarrow> Inl e
      | Inr b \<Rightarrow> (case utf8_encode cs of Inl e \<Rightarrow> Inl e | Inr bs \<Rightarrow> Inr (b @ bs)))"

text \<open>
  One piece of the output: \<^verbatim>\<open>encode(k.encode(...), str(v).encode(...))\<close>, the
  arguments evaluated from left to right.
\<close>

definition encode_item :: "nat \<Rightarrow> pystr \<Rightarrow> pyobj \<Rightarrow> exception + string" where
  "encode_item L k v =
     (case utf8_encode k of
        Inl e \<Rightarrow> Inl e
      | Inr kb \<Rightarrow>
          (case str_obj L v of
             Inl e \<Rightarrow> Inl e
           | Inr t \<Rightarrow>
               (case utf8_encode t of
                  Inl e \<Rightarrow> Inl e
                | Inr vb \<Rightarrow> Inr (quote_plus kb @ ''='' @ quote_plus vb))))"

fun encode_items :: "nat \<Rightarrow> (pystr \<times> pyobj) list \<Rightarrow> exception + string list" where
  "encode_items L [] = Inr []"
| "encode_items L ((k, v) # ps) =
     (case encode_item L k v of
        Inl e \<Rightarrow> Inl e
      | Inr p \<Rightarrow> (case encode_items L ps of Inl e \<Rightarrow> Inl e | Inr qs \<Rightarrow> Inr (p # qs)))"

definition urlencode_params :: "nat \<Rightarrow> params \<Rightarrow> exception + string" where
  "urlencode_params L d =
     (case encode_items L (concat (map (\<lambda>(k, vs). map (Pair k) vs) (items d))) of
        Inl e \<Rightarrow> Inl e
      | Inr ps \<Rightarrow> Inr (join ''&'' ps))"

definition copy_params :: "params \<Rightarrow> params" where
  "copy_params d = \<lparr>items = items d, writable = True\<rparr>"

definition setitem_params :: "params \<Rightarrow> pystr \<Rightarrow> pyobj \<Rightarrow> exception + params" where
  "setitem_params d k v =
     (if writable d then Inr (d\<lparr>items := AList.update k [v] (items d)\<rparr>)
      else Inl AttributeError)"

definition pop_params :: "params \<Rightarrow> pystr \<Rightarrow> exception + params" where
  "pop_params d k =
     (if writable d then Inr (d\<lparr>items := AList.delete k (items d)\<rparr>)
      else Inl AttributeError)"

fun update_loop_params :: "params \<Rightarrow> (pystr \<times> pyobj) list \<Rightarrow> exception + params" where
  "update_loop_params updated [] = Inr updated"
| "update_loop_params updated ((k, v) # kw) =
     (case (if v \<noteq> ONone then setitem_params updated k v else pop_params updated k) of
        Inl e \<Rightarrow> Inl e
      | Inr updated' \<Rightarrow> update_loop_params updated' kw)"

text \<open>The call \<^verbatim>\<open>query_transform(request, **kw)\<close>, with \<open>GET\<close> the value of
  \<^verbatim>\<open>request.GET\<close> and \<open>L\<close> the interpreter's limit on integer digits.\<close>

definition query_transform_call ::
  "nat \<Rightarrow> params \<Rightarrow> (pystr \<times> pyobj) list \<Rightarrow> exception + string" where
  "query_transform_call L GET kw =
     (if ascii ''request'' \<in> fst ` set kw then Inl TypeError
      else (case update_loop_params (copy_params GET) kw of
              Inl e \<Rightarrow> Inl e
            | Inr updated \<Rightarrow> urlencode_params L updated))"

text \<open>A string that has a UTF-8 encoding: code points only, none of them a surrogate.\<close>

definition encodable :: "pystr \<Rightarrow> bool" where
  "encodable s = list_all (\<lambda>c. c < 0xD800 \<or> (0xDFFF < c \<and> c < 0x110000)) s"

text \<open>A value whose \<^verbatim>\<open>str()\<close> can be taken and encoded.\<close>

fun printable :: "nat \<Rightarrow> pyobj \<Rightarrow> bool" where
  "printable L ONone = True"
| "printable L (OStr s) = encodable s"
| "printable L (OInt i) = (L = 0 \<or> int_digits i \<le> L)"
| "printable L (OBool b) = True"
| "printable L (OScalar t) = encodable t"

section \<open>Properties\<close>

lemma copy_qd_mutable: "mutable (copy_qd d)"
  by (simp add: copy_qd_def)

lemma hexdigit_table:
  "list_all (\<lambda>n. hexval (hexdigit n) = Some n \<and> always_safe (hexdigit n)) [0..<16]"
  by code_simp

lemma hexval_hexdigit: assumes "n < 16" shows "hexval (hexdigit n) = Some n"
  using hexdigit_table assms by (simp add: list_all_iff)

lemma hexdigit_safe: assumes "n < 16" shows "always_safe (hexdigit n)"
  using hexdigit_table assms by (simp add: list_all_iff)

lemma not_safe_special:
  "\<not> always_safe CHR ''%''" "\<not> always_safe CHR ''+''" "\<not> always_safe CHR ''&''"
  "\<not> always_safe CHR ''=''" "\<not> always_safe CHR '' ''" "\<not> always_safe CHR ''?''"
  by (simp_all add: always_safe_def)

lemma of_char_div16: "(of_char c :: nat) div 16 < 16"
proof -
  have "(of_char c :: nat) < 256" by simp
  then show ?thesis by arith
qed

lemma unquote_plain: "c \<noteq> CHR ''%'' \<Longrightarrow> unquote (c # cs) = c # unquote cs"
  by simp

lemma unquote_hex: "hexval h1 = Some a \<Longrightarrow> hexval h2 = Some b \<Longrightarrow> unquote (CHR ''%'' # h1 # h2 # cs) = char_of (16 * a + b) # unquote cs"
  by simp

lemma unquote_plus_quote_byte: "unquote_plus (quote_byte c @ s) = c # unquote_plus s"
proof (cases "always_safe c")
  case True
  then have "c \<noteq> CHR ''%''" "c \<noteq> CHR ''+''" using not_safe_special by auto
  with True show ?thesis
    by (simp add: quote_byte_def unquote_plus_def plus_to_space_def)
next
  case False
  show ?thesis
  proof (cases "c = CHR '' ''")
    case True
    with False show ?thesis by (simp add: quote_byte_def unquote_plus_def plus_to_space_def)
  next
    case sp: False
    let ?h1 = "hexdigit (of_char c div 16)" and ?h2 = "hexdigit (of_char c mod 16)"
    have "always_safe ?h1" "always_safe ?h2"
      by (simp_all add: hexdigit_safe of_char_div16)
    then have 1: "?h1 \<noteq> CHR ''+''" "?h2 \<noteq> CHR ''+''" using not_safe_special by auto
    have 2: "hexval ?h1 = Some (of_char c div 16)" "hexval ?h2 = Some (of_char c mod 16)"
      by (simp_all add: hexval_hexdigit of_char_div16)
    have "unquote_plus (quote_byte c @ s) = unquote (CHR ''%'' # ?h1 # ?h2 # plus_to_space s)"
      using False sp 1 by (simp add: quote_byte_def unquote_plus_def plus_to_space_def del: unquote.simps)
    also have "\<dots> = char_of (16 * ((of_char c :: nat) div 16) + of_char c mod 16) # unquote (plus_to_space s)"
      by (rule unquote_hex [OF 2])
    also have "\<dots> = c # unquote_plus s" by (simp add: unquote_plus_def)
    finally show ?thesis .
  qed
qed

lemma unquote_plus_quote_plus: "unquote_plus (quote_plus s) = s"
proof (induction s)
  case Nil
  show ?case by (simp add: quote_plus_def unquote_plus_def plus_to_space_def)
next
  case (Cons c s)
  have "quote_plus (c # s) = quote_byte c @ quote_plus s" by (simp add: quote_plus_def)
  then show ?case using Cons by (simp add: unquote_plus_quote_byte)
qed

lemma quote_byte_chars: "x \<in> set (quote_byte c) \<Longrightarrow> always_safe x \<or> x = CHR ''%'' \<or> x = CHR ''+''"
  using hexdigit_safe [OF of_char_div16 [of c]] hexdigit_safe [of "of_char c mod 16"]
  by (auto simp: quote_byte_def split: if_splits)

lemma quote_plus_chars: "x \<in> set (quote_plus s) \<Longrightarrow> always_safe x \<or> x = CHR ''%'' \<or> x = CHR ''+''"
  by (auto simp: quote_plus_def dest: quote_byte_chars)

lemma quote_plus_no_sep: "CHR ''&'' \<notin> set (quote_plus s)" "CHR ''='' \<notin> set (quote_plus s)"  "CHR ''?'' \<notin> set (quote_plus s)"
  using quote_plus_chars [of "CHR ''&''" s] quote_plus_chars [of "CHR ''=''" s] quote_plus_chars [of "CHR ''?''" s]
    not_safe_special
  by auto

lemma split_on_not_Nil: "split_on sep s \<noteq> []"
  by (induction s) (auto split: list.splits)

lemma split_on_no_sep: "sep \<notin> set p \<Longrightarrow> split_on sep p = [p]"
  by (induction p) auto

lemma split_on_append: "sep \<notin> set p \<Longrightarrow> split_on sep (p @ sep # s) = p # split_on sep s"
  by (induction p) auto

lemma split_on_join:
  "ps \<noteq> [] \<Longrightarrow> \<forall>p \<in> set ps. sep \<notin> set p \<Longrightarrow> split_on sep (join [sep] ps) = ps"
proof (induction ps)
  case Nil
  then show ?case by simp
next
  case (Cons p ps)
  show ?case
  proof (cases ps)
    case Nil
    with Cons.prems show ?thesis by (simp add: split_on_no_sep)
  next
    case (Cons q qs)
    with Cons.IH Cons.prems have "split_on sep (join [sep] ps) = ps" by simp
    with Cons Cons.prems show ?thesis by (simp add: split_on_append)
  qed
qed

lemma encode_pair_no_amp: "CHR ''&'' \<notin> set (encode_pair k v)"
  by (simp add: encode_pair_def quote_plus_no_sep)

lemma encode_pair_no_qmark: "CHR ''?'' \<notin> set (encode_pair k v)"
  by (simp add: encode_pair_def quote_plus_no_sep)

lemma encode_pair_not_Nil: "encode_pair k v \<noteq> []"
  by (simp add: encode_pair_def)

lemma takeWhile_before: "x \<notin> set p \<Longrightarrow> takeWhile (\<lambda>c. c \<noteq> x) (p @ x # s) = p"
  by (induction p) auto

lemma dropWhile_before: "x \<notin> set p \<Longrightarrow> dropWhile (\<lambda>c. c \<noteq> x) (p @ x # s) = x # s"
  by (induction p) auto

lemma parse_piece_encode_pair: "parse_piece (encode_pair k v) = (k, py_str v)"
  by (simp add: parse_piece_def encode_pair_def takeWhile_before dropWhile_before
      quote_plus_no_sep unquote_plus_quote_plus)

lemma parse_qsl_join:
  "parse_qsl (join ''&'' (map (\<lambda>(k, v). encode_pair k v) ps)) = map (\<lambda>(k, v). (k, py_str v)) ps"
proof (cases "ps = []")
  case True
  then show ?thesis by (simp add: parse_qsl_def)
next
  case False
  let ?pieces = "map (\<lambda>(k, v). encode_pair k v) ps"
  have "split_on CHR ''&'' (join ''&'' ?pieces) = ?pieces"
    using False by (intro split_on_join) (auto simp: encode_pair_no_amp)
  moreover have "filter (\<lambda>p. p \<noteq> []) ?pieces = ?pieces"
    by (auto simp: filter_id_conv encode_pair_not_Nil)
  ultimately show ?thesis
    by (simp add: parse_qsl_def parse_piece_encode_pair split_def comp_def)
qed

lemma parse_qsl_urlencode:
  "parse_qsl (urlencode d) = map (\<lambda>(k, v). (k, py_str v)) (pairs (entries d))"
  by (simp add: urlencode_def parse_qsl_join)

lemma appendlist_new: "k \<notin> fst ` set es \<Longrightarrow> appendlist es k v = es @ [(k, [v])]"
  by (induction es) auto

lemma appendlist_last:
  "k \<notin> fst ` set es \<Longrightarrow> appendlist (es @ [(k, ws)]) k v = es @ [(k, ws @ [v])]"
  by (induction es) auto

lemma map_fst_appendlist_old:
  "k \<in> fst ` set es \<Longrightarrow> map fst (appendlist es k v) = map fst es"
  by (induction es) (auto simp: rev_image_eqI)

lemma distinct_appendlist:
  "distinct (map fst es) \<Longrightarrow> distinct (map fst (appendlist es k v))"
  by (cases "k \<in> fst ` set es") (simp_all add: map_fst_appendlist_old appendlist_new)

lemma list_all_appendlist:
  "list_all (\<lambda>(k, vs). vs \<noteq> [] \<and> list_all Q vs) es \<Longrightarrow> Q v \<Longrightarrow>
   list_all (\<lambda>(k, vs). vs \<noteq> [] \<and> list_all Q vs) (appendlist es k v)"
  by (induction es) auto

lemma foldl_appendlist_same:
  "k \<notin> fst ` set acc \<Longrightarrow>
   foldl (\<lambda>es (k, v). appendlist es k (PStr v)) (acc @ [(k, ws)]) (map (\<lambda>v. (k, py_str v)) vs)
     = acc @ [(k, ws @ map (\<lambda>v. PStr (py_str v)) vs)]"
  by (induction vs arbitrary: ws) (simp_all add: appendlist_last)

lemma foldl_appendlist_key:
  assumes "k \<notin> fst ` set acc"
  shows "foldl (\<lambda>es (k, v). appendlist es k (PStr v)) acc (map (\<lambda>v. (k, py_str v)) vs)
     = (if vs = [] then acc else acc @ [(k, map (\<lambda>v. PStr (py_str v)) vs)])"
proof (cases vs)
  case Nil
  then show ?thesis by simp
next
  case (Cons v vs')
  then show ?thesis
    using assms foldl_appendlist_same [OF assms, of "[PStr (py_str v)]" vs']
    by (simp add: appendlist_new)
qed

lemma pairs_Cons: "pairs ((k, vs) # es) = map (Pair k) vs @ pairs es"
  by (simp add: pairs_def)

lemma foldl_appendlist_pairs:
  "distinct (map fst (acc @ es)) \<Longrightarrow>
   foldl (\<lambda>es (k, v). appendlist es k (PStr v)) acc (map (\<lambda>(k, v). (k, py_str v)) (pairs es))
     = acc @ stringified (filter (\<lambda>(k, vs). vs \<noteq> []) es)"
proof (induction es arbitrary: acc)
  case Nil
  then show ?case by (simp add: pairs_def stringified_def)
next
  case (Cons e es)
  obtain k vs where e: "e = (k, vs)" by (cases e)
  from Cons.prems e have k: "k \<notin> fst ` set acc" by auto
  let ?acc' = "if vs = [] then acc else acc @ [(k, map (\<lambda>v. PStr (py_str v)) vs)]"
  from Cons.prems e have d: "distinct (map fst (?acc' @ es))" by auto
  have "foldl (\<lambda>es (k, v). appendlist es k (PStr v)) acc
          (map (\<lambda>(k, v). (k, py_str v)) (pairs (e # es)))
      = foldl (\<lambda>es (k, v). appendlist es k (PStr v)) ?acc'
          (map (\<lambda>(k, v). (k, py_str v)) (pairs es))"
    using foldl_appendlist_key [OF k, of vs] by (simp add: e pairs_Cons comp_def)
  also have "\<dots> = ?acc' @ stringified (filter (\<lambda>(k, vs). vs \<noteq> []) es)"
    by (rule Cons.IH [OF d])
  also have "\<dots> = acc @ stringified (filter (\<lambda>(k, vs). vs \<noteq> []) (e # es))"
    by (simp add: e stringified_def)
  finally show ?case .
qed

lemma decode_urlencode_entries:
  "is_dict d \<Longrightarrow>
   entries (decode (urlencode d)) = stringified (filter (\<lambda>(k, vs). vs \<noteq> []) (entries d))"
  using foldl_appendlist_pairs [of "[]" "entries d"]
  by (simp add: decode_def from_pairs_def parse_qsl_urlencode is_dict_def)

lemma stringified_parsed:
  "list_all (\<lambda>(k, vs). vs \<noteq> [] \<and> list_all (\<lambda>v. case v of PStr s \<Rightarrow> True | _ \<Rightarrow> False) vs) es \<Longrightarrow>
   stringified (filter (\<lambda>(k, vs). vs \<noteq> []) es) = es"
proof (induction es)
  case Nil
  show ?case by (simp add: stringified_def)
next
  case (Cons e es)
  obtain k vs where e: "e = (k, vs)" by (cases e)
  from Cons.prems e have "list_all (\<lambda>v. case v of PStr s \<Rightarrow> True | _ \<Rightarrow> False) vs" by simp
  then have "map (\<lambda>v. PStr (py_str v)) vs = vs"
    by (induction vs) (auto split: pyval.splits)
  with Cons e show ?case by (simp add: stringified_def)
qed

lemma decode_urlencode_parsed: "parsed d \<Longrightarrow> entries (decode (urlencode d)) = entries d"
  by (simp add: parsed_def decode_urlencode_entries stringified_parsed)

lemma from_pairs_wf:
  "distinct (map fst acc) \<Longrightarrow>
   list_all (\<lambda>(k, vs). vs \<noteq> [] \<and> list_all (\<lambda>v. case v of PStr s \<Rightarrow> True | _ \<Rightarrow> False) vs) acc \<Longrightarrow>
   distinct (map fst (foldl (\<lambda>es (k, v). appendlist es k (PStr v)) acc ps)) \<and>
   list_all (\<lambda>(k, vs). vs \<noteq> [] \<and> list_all (\<lambda>v. case v of PStr s \<Rightarrow> True | _ \<Rightarrow> False) vs)
     (foldl (\<lambda>es (k, v). appendlist es k (PStr v)) acc ps)"
proof (induction ps arbitrary: acc)
  case Nil
  then show ?case by simp
next
  case (Cons p ps)
  obtain k v where p: "p = (k, v)" by (cases p)
  show ?case
    using Cons.IH [of "appendlist acc k (PStr v)"] Cons.prems
    by (simp add: p distinct_appendlist list_all_appendlist)
qed

lemma parsed_decode: "parsed (decode qs)"
  using from_pairs_wf [of "[]" "parse_qsl qs"]
  by (simp add: parsed_def is_dict_def decode_def from_pairs_def)

lemma step_mutable:
  "mutable u \<Longrightarrow>
   (if v \<noteq> PNone then setitem u k v else pop u k) =
     Inr (u\<lparr>entries := (if v \<noteq> PNone then AList.update k [v] (entries u)
                          else AList.delete k (entries u))\<rparr>)"
  by (simp add: setitem_def pop_def)

lemma update_loop_total: "mutable u \<Longrightarrow> \<exists>u'. update_loop u kw = Inr u' \<and> mutable u'"
proof (induction kw arbitrary: u)
  case Nil
  then show ?case by simp
next
  case (Cons p kw)
  obtain k v where p: "p = (k, v)" by (cases p)
  let ?u1 = "u\<lparr>entries := (if v \<noteq> PNone then AList.update k [v] (entries u)
                          else AList.delete k (entries u))\<rparr>"
  have "mutable ?u1" using Cons.prems by simp
  from Cons.IH [OF this] show ?case
    using step_mutable [OF Cons.prems, of v k] by (simp add: p del: AList.delete_simps)
qed

lemma update_loop_is_dict:
  "mutable u \<Longrightarrow> is_dict u \<Longrightarrow> update_loop u kw = Inr u' \<Longrightarrow> is_dict u'"
proof (induction kw arbitrary: u)
  case Nil
  then show ?case by simp
next
  case (Cons p kw)
  obtain k v where p: "p = (k, v)" by (cases p)
  let ?u1 = "u\<lparr>entries := (if v \<noteq> PNone then AList.update k [v] (entries u)
                          else AList.delete k (entries u))\<rparr>"
  have 1: "mutable ?u1" using Cons.prems by simp
  have 2: "is_dict ?u1" using Cons.prems
    by (simp add: is_dict_def distinct_update distinct_delete)
  have 3: "update_loop ?u1 kw = Inr u'"
    using Cons.prems(3) step_mutable [OF Cons.prems(1), of v k] by (simp add: p)
  from Cons.IH [OF 1 2 3] show ?case .
qed

lemma update_loop_getlist:
  "mutable u \<Longrightarrow> distinct (map fst kw) \<Longrightarrow> update_loop u kw = Inr u' \<Longrightarrow>
   getlist u' k =
     (case map_of kw k of None \<Rightarrow> getlist u k
      | Some v \<Rightarrow> if v \<noteq> PNone then Some [v] else None)"
proof (induction kw arbitrary: u)
  case Nil
  then show ?case by simp
next
  case (Cons p kw)
  obtain k0 v0 where p: "p = (k0, v0)" by (cases p)
  define u1 where "u1 = u\<lparr>entries := (if v0 \<noteq> PNone then AList.update k0 [v0] (entries u)
                          else AList.delete k0 (entries u))\<rparr>"
  have 1: "mutable u1" using Cons.prems by (simp add: u1_def)
  have 2: "distinct (map fst kw)" using Cons.prems by simp
  have 3: "update_loop u1 kw = Inr u'"
    using Cons.prems(3) step_mutable [OF Cons.prems(1), of v0 k0] by (simp add: p u1_def)
  have new: "map_of kw k0 = None"
    using Cons.prems(2) by (simp add: p map_of_eq_None_iff)
  have u1: "getlist u1 k = (if k = k0 then (if v0 \<noteq> PNone then Some [v0] else None) else getlist u k)"
    by (simp add: u1_def getlist_def update_conv' delete_conv')
  show ?case
  proof (cases "k = k0")
    case True
    with Cons.IH [OF 1 2 3] new u1 show ?thesis by (simp add: p)
  next
    case False
    with Cons.IH [OF 1 2 3] u1 show ?thesis by (simp add: p split: option.splits)
  qed
qed

lemma map_of_stringified:
  "distinct (map fst es) \<Longrightarrow>
   map_of (stringified (filter (\<lambda>(k, vs). vs \<noteq> []) es)) k =
     (case map_of es k of None \<Rightarrow> None
      | Some vs \<Rightarrow> if vs = [] then None else Some (map (\<lambda>v. PStr (py_str v)) vs))"
proof (induction es)
  case Nil
  show ?case by (simp add: stringified_def)
next
  case (Cons e es)
  obtain k0 vs0 where e: "e = (k0, vs0)" by (cases e)
  from Cons.prems e have "map_of es k0 = None" by (simp add: map_of_eq_None_iff)
  with Cons e show ?case by (auto simp: stringified_def)
qed

lemma getlist_decode_urlencode:
  "is_dict d \<Longrightarrow>
   getlist (decode (urlencode d)) k =
     (case getlist d k of None \<Rightarrow> None
      | Some vs \<Rightarrow> if vs = [] then None else Some (map (\<lambda>v. PStr (py_str v)) vs))"
  by (simp add: getlist_def decode_urlencode_entries map_of_stringified is_dict_def)

lemma is_dict_copy_qd: "is_dict (copy_qd d) = is_dict d"
  by (simp add: is_dict_def copy_qd_def)

lemma getlist_copy_qd: "getlist (copy_qd d) k = getlist d k"
  by (simp add: getlist_def copy_qd_def)

lemma query_transform_total: "\<exists>s. query_transform GET kw = Inr s"
  using update_loop_total [OF copy_qd_mutable, of GET kw]
  by (auto simp: query_transform_def)

lemma query_transform_updated:
  "\<exists>u. update_loop (copy_qd GET) kw = Inr u \<and> mutable u \<and> query_transform GET kw = Inr (urlencode u)"
  using update_loop_total [OF copy_qd_mutable, of GET kw]
  by (auto simp: query_transform_def)

lemma parsed_values:
  assumes "parsed P" and "getlist P k = Some vs"
  shows "vs \<noteq> []" and "map (\<lambda>v. PStr (py_str v)) vs = vs"
proof -
  from assms(2) have "(k, vs) \<in> set (entries P)"
    by (simp add: getlist_def map_of_SomeD)
  with assms(1) have 1: "vs \<noteq> []"
    and 2: "list_all (\<lambda>v. case v of PStr s \<Rightarrow> True | _ \<Rightarrow> False) vs"
    by (auto simp: parsed_def list_all_iff)
  show "vs \<noteq> []" by (rule 1)
  from 2 show "map (\<lambda>v. PStr (py_str v)) vs = vs"
    by (induction vs) (auto split: pyval.splits)
qed

lemma decoded_overrides:
  assumes "is_dict P" and "distinct (map fst kw)"
  shows "\<exists>s. query_transform P kw = Inr s \<and>
     (\<forall>k. getlist (decode s) k =
        (case map_of kw k of
           None \<Rightarrow> (case getlist P k of None \<Rightarrow> None
                    | Some vs \<Rightarrow> if vs = [] then None else Some (map (\<lambda>v. PStr (py_str v)) vs))
         | Some v \<Rightarrow> if v \<noteq> PNone then Some [PStr (py_str v)] else None))"
proof -
  obtain u where u: "update_loop (copy_qd P) kw = Inr u"
    and s: "query_transform P kw = Inr (urlencode u)"
    using query_transform_updated [of P kw] by blast
  have d: "is_dict u"
    using update_loop_is_dict [OF copy_qd_mutable _ u] assms(1) by (simp add: is_dict_copy_qd)
  have g: "getlist u k =
     (case map_of kw k of None \<Rightarrow> getlist P k
      | Some v \<Rightarrow> if v \<noteq> PNone then Some [v] else None)" for k
    using update_loop_getlist [OF copy_qd_mutable assms(2) u, of k]
    by (simp add: getlist_copy_qd cong: option.case_cong)
  have "getlist (decode (urlencode u)) k =
        (case map_of kw k of
           None \<Rightarrow> (case getlist P k of None \<Rightarrow> None
                    | Some vs \<Rightarrow> if vs = [] then None else Some (map (\<lambda>v. PStr (py_str v)) vs))
         | Some v \<Rightarrow> if v \<noteq> PNone then Some [PStr (py_str v)] else None)" for k
    by (simp add: getlist_decode_urlencode [OF d] g split: option.splits)
  with s show ?thesis by blast
qed

subsection \<open>Overrides and untouched keys\<close>

text \<open>
  C1. When no override is \<^verbatim>\<open>None\<close>, the decoded result of \<open>query_transform P kw\<close>
  maps every key of the overrides to the one string form of the value the overrides
  give it, and gives every key of \<open>P\<close> that no override names its original values.
  \<open>P\<close> is a request's parameters (\<open>parsed\<close>) and the overrides are a dictionary
  (their keys are distinct).
\<close>

theorem query_transform_overrides_and_rest:
  assumes "parsed P" and "distinct (map fst kw)" and "PNone \<notin> snd ` set kw"
  shows "\<exists>s. query_transform P kw = Inr s \<and>
     (\<forall>k v. (k, v) \<in> set kw \<longrightarrow> getlist (decode s) k = Some [PStr (py_str v)]) \<and>
     (\<forall>k vs. getlist P k = Some vs \<and> k \<notin> fst ` set kw \<longrightarrow> getlist (decode s) k = Some vs)"
proof -
  from assms(1) have "is_dict P" by (simp add: parsed_def)
  from decoded_overrides [OF this assms(2)] obtain s
    where s: "query_transform P kw = Inr s"
      and g: "\<And>k. getlist (decode s) k =
        (case map_of kw k of
           None \<Rightarrow> (case getlist P k of None \<Rightarrow> None
                    | Some vs \<Rightarrow> if vs = [] then None else Some (map (\<lambda>v. PStr (py_str v)) vs))
         | Some v \<Rightarrow> if v \<noteq> PNone then Some [PStr (py_str v)] else None)"
    by blast
  have a: "getlist (decode s) k = Some [PStr (py_str v)]" if "(k, v) \<in> set kw" for k v
  proof -
    from that assms(2) have "map_of kw k = Some v" by simp
    moreover from that assms(3) have "v \<noteq> PNone" by force
    ultimately show ?thesis by (simp add: g)
  qed
  have b: "getlist (decode s) k = Some vs" if "getlist P k = Some vs" "k \<notin> fst ` set kw" for k vs
  proof -
    from that(2) have "map_of kw k = None" by (simp add: map_of_eq_None_iff)
    with that(1) parsed_values [OF assms(1) that(1)] show ?thesis by (simp add: g)
  qed
  from s a b show ?thesis by blast
qed

theorem query_transform_overrides_and_rest_witness:
  "parsed \<lparr>entries = [(''foo'', [PStr ''1'']), (''bar'', [PStr ''2''])], mutable = False\<rparr> \<and>
   distinct (map fst [(''bar'', PInt 3), (''baz'', PInt 99)]) \<and>
   PNone \<notin> snd ` set [(''bar'', PInt 3), (''baz'', PInt 99)] \<and>
   query_transform \<lparr>entries = [(''foo'', [PStr ''1'']), (''bar'', [PStr ''2''])], mutable = False\<rparr>
     [(''bar'', PInt 3), (''baz'', PInt 99)] = Inr ''foo=1&bar=3&baz=99'' \<and>
   getlist (decode ''foo=1&bar=3&baz=99'') ''bar'' = Some [PStr ''3''] \<and>
   getlist (decode ''foo=1&bar=3&baz=99'') ''baz'' = Some [PStr ''99''] \<and>
   getlist (decode ''foo=1&bar=3&baz=99'') ''foo'' = Some [PStr ''1'']"
proof -
  let ?P = "\<lparr>entries = [(''foo'', [PStr ''1'']), (''bar'', [PStr ''2''])], mutable = False\<rparr>"
  let ?kw = "[(''bar'', PInt 3), (''baz'', PInt 99)]"
  have h1: "parsed ?P" by code_simp
  have h2: "distinct (map fst ?kw)" by simp
  have h3: "PNone \<notin> snd ` set ?kw" by simp
  have e: "query_transform ?P ?kw = Inr ''foo=1&bar=3&baz=99''" by code_simp
  have p: "py_str (PInt 3) = ''3''" "py_str (PInt 99) = ''99''" by code_simp+
  have f: "getlist ?P ''foo'' = Some [PStr ''1'']" by (simp add: getlist_def)
  from query_transform_overrides_and_rest [OF h1 h2 h3] obtain s
    where s: "query_transform ?P ?kw = Inr s"
      and a: "\<And>k v. (k, v) \<in> set ?kw \<Longrightarrow> getlist (decode s) k = Some [PStr (py_str v)]"
      and b: "\<And>k vs. getlist ?P k = Some vs \<Longrightarrow> k \<notin> fst ` set ?kw \<Longrightarrow> getlist (decode s) k = Some vs"
    by blast
  from s e have s': "s = ''foo=1&bar=3&baz=99''" by simp
  have "getlist (decode s) ''bar'' = Some [PStr ''3'']" using a [of "''bar''" "PInt 3"] p by simp
  moreover have "getlist (decode s) ''baz'' = Some [PStr ''99'']" using a [of "''baz''" "PInt 99"] p by simp
  moreover have "getlist (decode s) ''foo'' = Some [PStr ''1'']" using b [OF f] by simp
  ultimately show ?thesis using h1 h2 h3 e unfolding s' by blast
qed

subsection \<open>Round trip and re-encoding\<close>

text \<open>
  C4. With no overrides the call returns the encoding of the request's parameters as
  they are, and decoding that string gives the parameters back: the same keys in the
  same order, each with its list of values.
\<close>

theorem query_transform_empty_round_trip:
  assumes "parsed P"
  shows "\<exists>s. query_transform P [] = Inr s \<and> s = urlencode P \<and>
           entries (decode s) = entries P \<and> (\<forall>k. getlist (decode s) k = getlist P k)"
proof -
  have "query_transform P [] = Inr (urlencode P)"
    by (simp add: query_transform_def urlencode_def copy_qd_def)
  moreover have "entries (decode (urlencode P)) = entries P"
    by (rule decode_urlencode_parsed [OF assms])
  ultimately show ?thesis by (simp add: getlist_def)
qed

theorem query_transform_empty_round_trip_witness:
  "parsed \<lparr>entries = [(''title'', [PStr ''a b&c'']), (''tag'', [PStr ''x'', PStr ''y''])], mutable = False\<rparr> \<and>
   query_transform \<lparr>entries = [(''title'', [PStr ''a b&c'']), (''tag'', [PStr ''x'', PStr ''y''])], mutable = False\<rparr> []
     = Inr ''title=a+b%26c&tag=x&tag=y'' \<and>
   entries (decode ''title=a+b%26c&tag=x&tag=y'') = [(''title'', [PStr ''a b&c'']), (''tag'', [PStr ''x'', PStr ''y''])]"
proof -
  let ?P = "\<lparr>entries = [(''title'', [PStr ''a b&c'']), (''tag'', [PStr ''x'', PStr ''y''])], mutable = False\<rparr>"
  have h: "parsed ?P" by code_simp
  have e: "query_transform ?P [] = Inr ''title=a+b%26c&tag=x&tag=y''" by code_simp
  from query_transform_empty_round_trip [OF h] obtain s
    where s: "query_transform ?P [] = Inr s" and r: "entries (decode s) = entries ?P"
    by blast
  from s e have "s = ''title=a+b%26c&tag=x&tag=y''" by simp
  with r h e show ?thesis by simp
qed

text \<open>
  C5. Decoding the result of a call, and calling the function again on the decoded
  parameters with no overrides, gives a string that decodes to the same parameters.
\<close>

theorem query_transform_reencode_idempotent:
  "\<exists>s s'. query_transform P kw = Inr s \<and> query_transform (decode s) [] = Inr s' \<and>
     decode s' = decode s"
proof -
  obtain s where s: "query_transform P kw = Inr s"
    using query_transform_total by blast
  have 1: "query_transform (decode s) [] = Inr (urlencode (decode s))"
    by (simp add: query_transform_def urlencode_def copy_qd_def)
  have "entries (decode (urlencode (decode s))) = entries (decode s)"
    by (rule decode_urlencode_parsed [OF parsed_decode])
  then have "decode (urlencode (decode s)) = decode s"
    by (simp add: decode_def)
  with s 1 show ?thesis by blast
qed

theorem query_transform_reencode_idempotent_witness:
  "query_transform \<lparr>entries = [(''q'', [PStr ''a b'']), (''page'', [PStr ''1''])], mutable = False\<rparr>
     [(''page'', PInt 2)] = Inr ''q=a+b&page=2'' \<and>
   query_transform (decode ''q=a+b&page=2'') [] = Inr ''q=a+b&page=2''"
proof -
  let ?P = "\<lparr>entries = [(''q'', [PStr ''a b'']), (''page'', [PStr ''1''])], mutable = False\<rparr>"
  have e: "query_transform ?P [(''page'', PInt 2)] = Inr ''q=a+b&page=2''" by code_simp
  have e': "query_transform (decode ''q=a+b&page=2'') [] = Inr ''q=a+b&page=2''" by code_simp
  from query_transform_reencode_idempotent [of ?P "[(''page'', PInt 2)]"] obtain s s'
    where "query_transform ?P [(''page'', PInt 2)] = Inr s"
      and "query_transform (decode s) [] = Inr s'" by blast
  with e e' show ?thesis by simp
qed

lemma key_in_entries: "(k, x) \<in> set es \<Longrightarrow> k \<in> fst ` set es"
  by force

lemma keys_appendlist: "fst ` set (appendlist es k v) = insert k (fst ` set es)"
proof (cases "k \<in> fst ` set es")
  case True
  have "fst ` set (appendlist es k v) = set (map fst (appendlist es k v))" by simp
  also have "\<dots> = set (map fst es)" by (simp only: map_fst_appendlist_old [OF True])
  finally show ?thesis using True by (simp add: insert_absorb)
next
  case False
  then show ?thesis by (simp add: appendlist_new)
qed

lemma keys_foldl_appendlist:
  "fst ` set (foldl (\<lambda>es (k, v). appendlist es k (PStr v)) acc ps) = fst ` set acc \<union> fst ` set ps"
proof (induction ps arbitrary: acc)
  case Nil
  show ?case by simp
next
  case (Cons p ps)
  obtain k v where p: "p = (k, v)" by (cases p)
  show ?case using Cons.IH [of "appendlist acc k (PStr v)"] by (simp add: p keys_appendlist)
qed

lemma keys_decode: "keys (decode qs) = fst ` set (parse_qsl qs)"
  by (simp add: keys_def decode_def from_pairs_def keys_foldl_appendlist)

lemma keys_pairs: "fst ` set (pairs es) \<subseteq> fst ` set es"
  by (auto simp: pairs_def intro: key_in_entries)

lemma keys_decode_urlencode: "keys (decode (urlencode d)) \<subseteq> keys d"
proof -
  have "fst ` set (map (\<lambda>(k, v). (k, py_str v)) (pairs (entries d))) = fst ` set (pairs (entries d))"
    by force
  then show ?thesis
    using keys_pairs [of "entries d"] by (simp add: keys_decode parse_qsl_urlencode) (simp add: keys_def)
qed

lemma getlist_None_iff: "getlist d k = None \<longleftrightarrow> k \<notin> keys d"
  by (simp add: getlist_def keys_def map_of_eq_None_iff)

lemma update_loop_skip_absent:
  "mutable u \<Longrightarrow> distinct (map fst kw) \<Longrightarrow> (k, PNone) \<in> set kw \<Longrightarrow> k \<notin> keys u \<Longrightarrow>
   update_loop u (remove1 (k, PNone) kw) = update_loop u kw"
proof (induction kw arbitrary: u)
  case Nil
  then show ?case by simp
next
  case (Cons p kw)
  obtain k0 v0 where p: "p = (k0, v0)" by (cases p)
  show ?case
  proof (cases "p = (k, PNone)")
    case True
    have "pop u k = Inr u"
      using Cons.prems(1,4) by (simp add: pop_def keys_def)
    with True show ?thesis by simp
  next
    case False
    with Cons.prems(3) have in_tl: "(k, PNone) \<in> set kw" by simp
    with Cons.prems(2) have ne: "k0 \<noteq> k" by (force simp: p)
    define u1 where "u1 = u\<lparr>entries := (if v0 \<noteq> PNone then AList.update k0 [v0] (entries u)
                          else AList.delete k0 (entries u))\<rparr>"
    have st: "(if v0 \<noteq> PNone then setitem u k0 v0 else pop u k0) = Inr u1"
      using step_mutable [OF Cons.prems(1), of v0 k0] by (simp add: u1_def)
    have 1: "mutable u1" using Cons.prems(1) by (simp add: u1_def)
    have 2: "distinct (map fst kw)" using Cons.prems(2) by simp
    have 3: "k \<notin> keys u1"
      using Cons.prems(4) ne dom_delete_subset [of k0 "entries u"]
      by (auto simp: u1_def keys_def dom_update simp del: AList.delete_simps)
    have "update_loop u (remove1 (k, PNone) (p # kw)) = update_loop u1 (remove1 (k, PNone) kw)"
      using ne st by (auto simp: p)
    also have "\<dots> = update_loop u1 kw" by (rule Cons.IH [OF 1 2 in_tl 3])
    also have "\<dots> = update_loop u (p # kw)" using st by (simp add: p)
    finally show ?thesis .
  qed
qed

subsection \<open>Removal\<close>

text \<open>
  C2. A key that the overrides map to \<^verbatim>\<open>None\<close> is not a key of the decoded result,
  whatever \<open>P\<close> holds. When the key is not in \<open>P\<close>, the call returns the same string
  as the call with the remaining overrides.
\<close>

theorem query_transform_None_removes:
  assumes "distinct (map fst kw)" and "(k, PNone) \<in> set kw"
  shows "\<exists>s. query_transform P kw = Inr s \<and> k \<notin> keys (decode s) \<and>
     (k \<notin> keys P \<longrightarrow> query_transform P (remove1 (k, PNone) kw) = Inr s)"
proof -
  obtain u where u: "update_loop (copy_qd P) kw = Inr u"
    and s: "query_transform P kw = Inr (urlencode u)"
    using query_transform_updated [of P kw] by blast
  from assms have "map_of kw k = Some PNone" by simp
  then have "getlist u k = None"
    using update_loop_getlist [OF copy_qd_mutable assms(1) u, of k] by simp
  then have "k \<notin> keys u" by (simp add: getlist_None_iff)
  then have 1: "k \<notin> keys (decode (urlencode u))"
    using keys_decode_urlencode [of u] by blast
  have 2: "query_transform P (remove1 (k, PNone) kw) = Inr (urlencode u)" if "k \<notin> keys P"
  proof -
    from that have "k \<notin> keys (copy_qd P)" by (simp add: keys_def copy_qd_def)
    from update_loop_skip_absent [OF copy_qd_mutable assms this] s
    show ?thesis by (simp add: query_transform_def)
  qed
  from s 1 2 show ?thesis by blast
qed

theorem query_transform_None_removes_witness:
  "distinct (map fst [(''page'', PNone), (''title'', PStr ''x'')]) \<and>
   (''page'', PNone) \<in> set [(''page'', PNone), (''title'', PStr ''x'')] \<and>
   query_transform \<lparr>entries = [(''a'', [PStr ''5''])], mutable = False\<rparr>
     [(''page'', PNone), (''title'', PStr ''x'')] = Inr ''a=5&title=x'' \<and>
   ''page'' \<notin> keys (decode ''a=5&title=x'') \<and>
   ''page'' \<notin> keys \<lparr>entries = [(''a'', [PStr ''5''])], mutable = False\<rparr> \<and>
   query_transform \<lparr>entries = [(''a'', [PStr ''5''])], mutable = False\<rparr>
     [(''title'', PStr ''x'')] = Inr ''a=5&title=x''"
proof -
  let ?P = "\<lparr>entries = [(''a'', [PStr ''5''])], mutable = False\<rparr>"
  let ?kw = "[(''page'', PNone), (''title'', PStr ''x'')]"
  have h1: "distinct (map fst ?kw)" by simp
  have h2: "(''page'', PNone) \<in> set ?kw" by simp
  have h3: "''page'' \<notin> keys ?P" by (simp add: keys_def)
  have e: "query_transform ?P ?kw = Inr ''a=5&title=x''" by code_simp
  have r: "remove1 (''page'', PNone) ?kw = [(''title'', PStr ''x'')]" by simp
  from query_transform_None_removes [OF h1 h2, of ?P] obtain s
    where s: "query_transform ?P ?kw = Inr s" and a: "''page'' \<notin> keys (decode s)"
      and b: "''page'' \<notin> keys ?P \<longrightarrow> query_transform ?P (remove1 (''page'', PNone) ?kw) = Inr s"
    by blast
  from s e have s': "s = ''a=5&title=x''" by simp
  from b h3 r have "query_transform ?P [(''title'', PStr ''x'')] = Inr s" by simp
  with a h1 h2 h3 e show ?thesis unfolding s' by blast
qed

lemma filter_pairs_absent:
  "k \<notin> fst ` set es \<Longrightarrow> filter (\<lambda>(k', v). k' = k) (pairs es) = []"
  by (induction es) (auto simp: pairs_def filter_empty_conv)

lemma filter_pairs_key:
  "distinct (map fst es) \<Longrightarrow> map_of es k = Some vs \<Longrightarrow>
   filter (\<lambda>(k', v). k' = k) (pairs es) = map (Pair k) vs"
proof (induction es)
  case Nil
  then show ?case by simp
next
  case (Cons e es)
  obtain k0 vs0 where e: "e = (k0, vs0)" by (cases e)
  show ?case
  proof (cases "k0 = k")
    case True
    with Cons.prems e have "k \<notin> fst ` set es" and "vs0 = vs" by auto
    with True show ?thesis
      by (simp add: e pairs_Cons filter_pairs_absent)
  next
    case False
    then have "filter (\<lambda>(k', v). k' = k) (map (Pair k0) vs0) = []"
      by (simp add: filter_empty_conv)
    with False Cons e show ?thesis by (simp add: pairs_Cons)
  qed
qed

lemma parse_qsl_urlencode_key:
  assumes "is_dict d" and "getlist d k = Some vs"
  shows "filter (\<lambda>(k', x). k' = k) (parse_qsl (urlencode d)) = map (\<lambda>v. (k, py_str v)) vs"
proof -
  have "filter (\<lambda>(k', x). k' = k) (map (\<lambda>(k, v). (k, py_str v)) (pairs (entries d)))
      = map (\<lambda>(k, v). (k, py_str v)) (filter (\<lambda>(k', v). k' = k) (pairs (entries d)))"
    by (simp add: filter_map comp_def split_def)
  also have "\<dots> = map (\<lambda>(k, v). (k, py_str v)) (map (Pair k) vs)"
    using filter_pairs_key [of "entries d" k vs] assms by (simp add: is_dict_def getlist_def)
  also have "\<dots> = map (\<lambda>v. (k, py_str v)) vs" by simp
  finally show ?thesis by (simp add: parse_qsl_urlencode)
qed

subsection \<open>Keys with several values\<close>

text \<open>
  C3. Let the key \<open>k\<close> have more than one value in \<open>P\<close>. If an override gives \<open>k\<close>
  a value other than \<^verbatim>\<open>None\<close>, the decoded result has exactly that one value for
  \<open>k\<close>, in string form. If no override names \<open>k\<close>, the decoded result has all the
  original values of \<open>k\<close>, and the returned string holds one pair for \<open>k\<close> per
  original value, in their order.
\<close>

theorem query_transform_multi_valued_key:
  assumes "parsed P" and "distinct (map fst kw)" and "getlist P k = Some vs" and "1 < length vs"
  shows "\<exists>s. query_transform P kw = Inr s \<and>
     (\<forall>v. (k, v) \<in> set kw \<and> v \<noteq> PNone \<longrightarrow> getlist (decode s) k = Some [PStr (py_str v)]) \<and>
     (k \<notin> fst ` set kw \<longrightarrow>
        getlist (decode s) k = Some vs \<and>
        filter (\<lambda>(k', x). k' = k) (parse_qsl s) = map (\<lambda>v. (k, py_str v)) vs)"
proof -
  obtain u where u: "update_loop (copy_qd P) kw = Inr u"
    and s: "query_transform P kw = Inr (urlencode u)"
    using query_transform_updated [of P kw] by blast
  from assms(1) have dP: "is_dict P" by (simp add: parsed_def)
  have d: "is_dict u"
    using update_loop_is_dict [OF copy_qd_mutable _ u] dP by (simp add: is_dict_copy_qd)
  have g: "getlist u k =
     (case map_of kw k of None \<Rightarrow> getlist P k
      | Some v \<Rightarrow> if v \<noteq> PNone then Some [v] else None)"
    using update_loop_getlist [OF copy_qd_mutable assms(2) u, of k]
    by (simp add: getlist_copy_qd cong: option.case_cong)
  have a: "getlist (decode (urlencode u)) k = Some [PStr (py_str v)]"
    if "(k, v) \<in> set kw" "v \<noteq> PNone" for v
  proof -
    from that(1) assms(2) have "map_of kw k = Some v" by simp
    with that(2) g show ?thesis by (simp add: getlist_decode_urlencode [OF d])
  qed
  have b: "getlist (decode (urlencode u)) k = Some vs \<and>
        filter (\<lambda>(k', x). k' = k) (parse_qsl (urlencode u)) = map (\<lambda>v. (k, py_str v)) vs"
    if "k \<notin> fst ` set kw"
  proof -
    from that have "map_of kw k = None" by (simp add: map_of_eq_None_iff)
    with g assms(3) have gu: "getlist u k = Some vs" by simp
    with parsed_values [OF assms(1,3)] parse_qsl_urlencode_key [OF d gu]
    show ?thesis by (simp add: getlist_decode_urlencode [OF d])
  qed
  from s a b show ?thesis by blast
qed

theorem query_transform_multi_valued_key_witness:
  "parsed \<lparr>entries = [(''tag'', [PStr ''x'', PStr ''y'']), (''page'', [PStr ''1''])], mutable = False\<rparr> \<and>
   getlist \<lparr>entries = [(''tag'', [PStr ''x'', PStr ''y'']), (''page'', [PStr ''1''])], mutable = False\<rparr> ''tag''
     = Some [PStr ''x'', PStr ''y''] \<and>
   1 < length [PStr ''x'', PStr ''y''] \<and>
   query_transform \<lparr>entries = [(''tag'', [PStr ''x'', PStr ''y'']), (''page'', [PStr ''1''])], mutable = False\<rparr>
     [(''tag'', PStr ''z'')] = Inr ''tag=z&page=1'' \<and>
   getlist (decode ''tag=z&page=1'') ''tag'' = Some [PStr ''z''] \<and>
   query_transform \<lparr>entries = [(''tag'', [PStr ''x'', PStr ''y'']), (''page'', [PStr ''1''])], mutable = False\<rparr>
     [(''page'', PInt 2)] = Inr ''tag=x&tag=y&page=2'' \<and>
   getlist (decode ''tag=x&tag=y&page=2'') ''tag'' = Some [PStr ''x'', PStr ''y''] \<and>
   filter (\<lambda>(k', x). k' = ''tag'') (parse_qsl ''tag=x&tag=y&page=2'') = [(''tag'', ''x''), (''tag'', ''y'')]"
proof -
  let ?P = "\<lparr>entries = [(''tag'', [PStr ''x'', PStr ''y'']), (''page'', [PStr ''1''])], mutable = False\<rparr>"
  let ?vs = "[PStr ''x'', PStr ''y'']"
  have h1: "parsed ?P" by code_simp
  have h3: "getlist ?P ''tag'' = Some ?vs" by (simp add: getlist_def)
  have h4: "1 < length ?vs" by simp
  have e1: "query_transform ?P [(''tag'', PStr ''z'')] = Inr ''tag=z&page=1''" by code_simp
  have e2: "query_transform ?P [(''page'', PInt 2)] = Inr ''tag=x&tag=y&page=2''" by code_simp
  from query_transform_multi_valued_key [OF h1 _ h3 h4, of "[(''tag'', PStr ''z'')]"] obtain s1
    where "query_transform ?P [(''tag'', PStr ''z'')] = Inr s1"
      and "\<forall>v. (''tag'', v) \<in> set [(''tag'', PStr ''z'')] \<and> v \<noteq> PNone \<longrightarrow>
             getlist (decode s1) ''tag'' = Some [PStr (py_str v)]"
    by auto
  with e1 have a: "getlist (decode ''tag=z&page=1'') ''tag'' = Some [PStr ''z'']" by simp
  from query_transform_multi_valued_key [OF h1 _ h3 h4, of "[(''page'', PInt 2)]"] obtain s2
    where "query_transform ?P [(''page'', PInt 2)] = Inr s2"
      and "''tag'' \<notin> fst ` set [(''page'', PInt 2)] \<longrightarrow>
        getlist (decode s2) ''tag'' = Some ?vs \<and>
        filter (\<lambda>(k', x). k' = ''tag'') (parse_qsl s2) = map (\<lambda>v. (''tag'', py_str v)) ?vs"
    by auto
  with e2 have b: "getlist (decode ''tag=x&tag=y&page=2'') ''tag'' = Some ?vs"
    "filter (\<lambda>(k', x). k' = ''tag'') (parse_qsl ''tag=x&tag=y&page=2'') = [(''tag'', ''x''), (''tag'', ''y'')]"
    by simp_all
  from h1 h3 h4 e1 e2 a b show ?thesis by blast
qed

subsection \<open>What removes a key, and the order of the overrides\<close>

text \<open>
  C9. Only \<^verbatim>\<open>None\<close> removes a key. An override with any other value, the empty
  string, \<open>0\<close> and \<^verbatim>\<open>False\<close> among them, leaves the key in the decoded result with
  the string form of that value as its one value.
\<close>

theorem query_transform_only_None_removes:
  assumes "is_dict P" and "distinct (map fst kw)" and "(k, v) \<in> set kw" and "v \<noteq> PNone"
  shows "\<exists>s. query_transform P kw = Inr s \<and>
     getlist (decode s) k = Some [PStr (py_str v)] \<and> k \<in> keys (decode s)"
proof -
  from decoded_overrides [OF assms(1,2)] obtain s
    where s: "query_transform P kw = Inr s"
      and g: "\<And>k. getlist (decode s) k =
        (case map_of kw k of
           None \<Rightarrow> (case getlist P k of None \<Rightarrow> None
                    | Some vs \<Rightarrow> if vs = [] then None else Some (map (\<lambda>v. PStr (py_str v)) vs))
         | Some v \<Rightarrow> if v \<noteq> PNone then Some [PStr (py_str v)] else None)"
    by blast
  from assms(2,3) have "map_of kw k = Some v" by simp
  with assms(4) have 1: "getlist (decode s) k = Some [PStr (py_str v)]" by (simp add: g)
  then have "getlist (decode s) k \<noteq> None" by simp
  then have "k \<in> keys (decode s)" by (simp add: getlist_None_iff)
  with s 1 show ?thesis by blast
qed

theorem query_transform_only_None_removes_witness:
  "is_dict \<lparr>entries = [(''a'', [PStr ''1'']), (''d'', [PStr ''4''])], mutable = False\<rparr> \<and>
   distinct (map fst [(''a'', PStr ''''), (''b'', PInt 0), (''c'', PBool False), (''d'', PNone)]) \<and>
   query_transform \<lparr>entries = [(''a'', [PStr ''1'']), (''d'', [PStr ''4''])], mutable = False\<rparr>
     [(''a'', PStr ''''), (''b'', PInt 0), (''c'', PBool False), (''d'', PNone)] = Inr ''a=&b=0&c=False'' \<and>
   getlist (decode ''a=&b=0&c=False'') ''a'' = Some [PStr ''''] \<and>
   getlist (decode ''a=&b=0&c=False'') ''b'' = Some [PStr ''0''] \<and>
   getlist (decode ''a=&b=0&c=False'') ''c'' = Some [PStr ''False''] \<and>
   ''a'' \<in> keys (decode ''a=&b=0&c=False'')"
proof -
  let ?P = "\<lparr>entries = [(''a'', [PStr ''1'']), (''d'', [PStr ''4''])], mutable = False\<rparr>"
  let ?kw = "[(''a'', PStr ''''), (''b'', PInt 0), (''c'', PBool False), (''d'', PNone)]"
  have h1: "is_dict ?P" by (simp add: is_dict_def)
  have h2: "distinct (map fst ?kw)" by simp
  have e: "query_transform ?P ?kw = Inr ''a=&b=0&c=False''" by code_simp
  have p: "py_str (PInt 0) = ''0''" by code_simp
  from query_transform_only_None_removes [OF h1 h2, of "''a''" "PStr ''''"] e
  have a: "getlist (decode ''a=&b=0&c=False'') ''a'' = Some [PStr '''']"
    "''a'' \<in> keys (decode ''a=&b=0&c=False'')" by auto
  from query_transform_only_None_removes [OF h1 h2, of "''b''" "PInt 0"] e p
  have b: "getlist (decode ''a=&b=0&c=False'') ''b'' = Some [PStr ''0'']" by auto
  from query_transform_only_None_removes [OF h1 h2, of "''c''" "PBool False"] e
  have c: "getlist (decode ''a=&b=0&c=False'') ''c'' = Some [PStr ''False'']" by auto
  from h1 h2 e a b c show ?thesis by blast
qed

text \<open>
  C10. The overrides are a dictionary, so their keys are distinct, and the order in which
  the loop meets them does not change the decoded result: for any two orders of the same
  overrides, every key has the same values in both decoded results. (The two strings
  themselves may list new keys in different orders.)
\<close>

theorem query_transform_override_order:
  assumes "is_dict P" and "distinct (map fst kw)" and "mset kw' = mset kw"
  shows "\<exists>s s'. query_transform P kw = Inr s \<and> query_transform P kw' = Inr s' \<and>
     (\<forall>k. getlist (decode s') k = getlist (decode s) k)"
proof -
  from assms(3) have "mset (map fst kw') = mset (map fst kw)" by simp
  with assms(2) have d': "distinct (map fst kw')"
    using mset_eq_imp_distinct_iff by blast
  from assms(3) have "set kw' = set kw" by (rule mset_eq_setD)
  with assms(2) d' have m: "map_of kw' = map_of kw" by (simp add: map_of_inject_set)
  from decoded_overrides [OF assms(1,2)] obtain s
    where s: "query_transform P kw = Inr s"
      and g: "\<And>k. getlist (decode s) k =
        (case map_of kw k of
           None \<Rightarrow> (case getlist P k of None \<Rightarrow> None
                    | Some vs \<Rightarrow> if vs = [] then None else Some (map (\<lambda>v. PStr (py_str v)) vs))
         | Some v \<Rightarrow> if v \<noteq> PNone then Some [PStr (py_str v)] else None)"
    by blast
  from decoded_overrides [OF assms(1) d'] obtain s'
    where s': "query_transform P kw' = Inr s'"
      and g': "\<And>k. getlist (decode s') k =
        (case map_of kw' k of
           None \<Rightarrow> (case getlist P k of None \<Rightarrow> None
                    | Some vs \<Rightarrow> if vs = [] then None else Some (map (\<lambda>v. PStr (py_str v)) vs))
         | Some v \<Rightarrow> if v \<noteq> PNone then Some [PStr (py_str v)] else None)"
    by blast
  have "getlist (decode s') k = getlist (decode s) k" for k
    by (simp only: g g' m)
  with s s' show ?thesis by blast
qed

theorem query_transform_override_order_witness:
  "is_dict \<lparr>entries = [(''q'', [PStr ''x''])], mutable = False\<rparr> \<and>
   distinct (map fst [(''a'', PInt 1), (''b'', PInt 2)]) \<and>
   mset [(''b'', PInt 2), (''a'', PInt 1)] = mset [(''a'', PInt 1), (''b'', PInt 2)] \<and>
   query_transform \<lparr>entries = [(''q'', [PStr ''x''])], mutable = False\<rparr>
     [(''a'', PInt 1), (''b'', PInt 2)] = Inr ''q=x&a=1&b=2'' \<and>
   query_transform \<lparr>entries = [(''q'', [PStr ''x''])], mutable = False\<rparr>
     [(''b'', PInt 2), (''a'', PInt 1)] = Inr ''q=x&b=2&a=1'' \<and>
   getlist (decode ''q=x&b=2&a=1'') ''a'' = getlist (decode ''q=x&a=1&b=2'') ''a'' \<and>
   getlist (decode ''q=x&b=2&a=1'') ''b'' = getlist (decode ''q=x&a=1&b=2'') ''b''"
proof -
  let ?P = "\<lparr>entries = [(''q'', [PStr ''x''])], mutable = False\<rparr>"
  let ?kw = "[(''a'', PInt 1), (''b'', PInt 2)]"
  let ?kw' = "[(''b'', PInt 2), (''a'', PInt 1)]"
  have h1: "is_dict ?P" by (simp add: is_dict_def)
  have h2: "distinct (map fst ?kw)" by simp
  have h3: "mset ?kw' = mset ?kw" by simp
  have e: "query_transform ?P ?kw = Inr ''q=x&a=1&b=2''" by code_simp
  have e': "query_transform ?P ?kw' = Inr ''q=x&b=2&a=1''" by code_simp
  from query_transform_override_order [OF h1 h2 h3] e e'
  have "\<forall>k. getlist (decode ''q=x&b=2&a=1'') k = getlist (decode ''q=x&a=1&b=2'') k" by auto
  with h1 h2 h3 e e' show ?thesis by blast
qed

lemma update_loop_st_eq:
  "a < length h \<Longrightarrow> mutable (h ! a) \<Longrightarrow> update_loop (h ! a) kw = Inr u \<Longrightarrow>
   update_loop_st h a kw = (h[a := u], None)"
proof (induction kw arbitrary: h)
  case Nil
  then have "h[a := u] = h" by (auto simp: list_update_id)
  then show ?case by simp
next
  case (Cons p kw)
  obtain k v where p: "p = (k, v)" by (cases p)
  define u1 where "u1 = (h ! a)\<lparr>entries := (if v \<noteq> PNone then AList.update k [v] (entries (h ! a))
                          else AList.delete k (entries (h ! a)))\<rparr>"
  have st: "(if v \<noteq> PNone then setitem (h ! a) k v else pop (h ! a) k) = Inr u1"
    using step_mutable [OF Cons.prems(2), of v k] by (simp add: u1_def)
  then have st': "(if v \<noteq> PNone then setitem_st h a k v else pop_st h a k) = Inr (h[a := u1])"
    by (simp add: setitem_st_def pop_st_def split: if_splits)
  have 1: "a < length (h[a := u1])" using Cons.prems(1) by simp
  have 2: "mutable (h[a := u1] ! a)" using Cons.prems(1,2) by (simp add: u1_def)
  have 3: "update_loop (h[a := u1] ! a) kw = Inr u"
    using Cons.prems(1,3) st by (simp add: p)
  from Cons.IH [OF 1 2 3] st' show ?case by (simp add: p)
qed

lemma query_transform_st_eq:
  assumes "update_loop (copy_qd (h ! GET)) kw = Inr u"
  shows "query_transform_st h GET kw = (h @ [u], Inr (urlencode u))"
proof -
  let ?h1 = "h @ [copy_qd (h ! GET)]"
  have "update_loop_st ?h1 (length h) kw = (?h1[length h := u], None)"
    using assms by (intro update_loop_st_eq) (simp_all add: copy_qd_mutable)
  then show ?thesis by (simp add: query_transform_st_def copy_st_def)
qed

lemma set_join: "c \<in> set (join sep ps) \<Longrightarrow> c \<in> set sep \<or> (\<exists>p \<in> set ps. c \<in> set p)"
  by (induction sep ps rule: join.induct) auto

lemma encode_pair_chars:
  "c \<in> set (encode_pair k v) \<Longrightarrow> always_safe c \<or> c = CHR ''%'' \<or> c = CHR ''+'' \<or> c = CHR ''=''"
  using quote_plus_chars [of c k] quote_plus_chars [of c "py_str v"]
  by (auto simp: encode_pair_def)

lemma urlencode_chars:
  assumes "c \<in> set (urlencode d)"
  shows "always_safe c \<or> c = CHR ''%'' \<or> c = CHR ''+'' \<or> c = CHR ''='' \<or> c = CHR ''&''"
proof -
  from set_join [OF assms [unfolded urlencode_def]]
  show ?thesis by (auto dest: encode_pair_chars)
qed

subsection \<open>The caller's parameters\<close>

text \<open>
  C6. The call does not change the caller's parameters. On the store of objects, with
  \<open>GET\<close> the address of the live object \<^verbatim>\<open>request.GET\<close>: the call returns a string, the
  object at \<open>GET\<close> is afterwards what it was before, and so is every other object that
  was there; the one change to the store is the new object that \<^verbatim>\<open>copy()\<close> made. The
  string is the one the function computes from the value of \<^verbatim>\<open>request.GET\<close>.
\<close>

theorem query_transform_keeps_request_GET:
  assumes "GET < length h"
  shows "\<exists>h' s. query_transform_st h GET kw = (h', Inr s) \<and>
     h' ! GET = h ! GET \<and> take (length h) h' = h \<and> length h' = Suc (length h) \<and>
     query_transform (h ! GET) kw = Inr s"
proof -
  obtain u where u: "update_loop (copy_qd (h ! GET)) kw = Inr u"
    and s: "query_transform (h ! GET) kw = Inr (urlencode u)"
    using query_transform_updated [of "h ! GET" kw] by blast
  have "query_transform_st h GET kw = (h @ [u], Inr (urlencode u))"
    by (rule query_transform_st_eq [OF u])
  moreover have "(h @ [u]) ! GET = h ! GET" using assms by (simp add: nth_append)
  ultimately show ?thesis using s by simp
qed

theorem query_transform_keeps_request_GET_witness:
  "(0::nat) < length [\<lparr>entries = [(''foo'', [PStr ''1'']), (''bar'', [PStr ''2''])], mutable = False\<rparr>] \<and>
   query_transform_st [\<lparr>entries = [(''foo'', [PStr ''1'']), (''bar'', [PStr ''2''])], mutable = False\<rparr>] 0
       [(''bar'', PInt 3), (''foo'', PNone)]
     = ([\<lparr>entries = [(''foo'', [PStr ''1'']), (''bar'', [PStr ''2''])], mutable = False\<rparr>,
         \<lparr>entries = [(''bar'', [PInt 3])], mutable = True\<rparr>], Inr ''bar=3'') \<and>
   query_transform \<lparr>entries = [(''foo'', [PStr ''1'']), (''bar'', [PStr ''2''])], mutable = False\<rparr>
       [(''bar'', PInt 3), (''foo'', PNone)] = Inr ''bar=3''"
proof -
  let ?P = "\<lparr>entries = [(''foo'', [PStr ''1'']), (''bar'', [PStr ''2''])], mutable = False\<rparr>"
  let ?kw = "[(''bar'', PInt 3), (''foo'', PNone)]"
  have h: "(0::nat) < length [?P]" by simp
  have e: "query_transform_st [?P] 0 ?kw
     = ([?P, \<lparr>entries = [(''bar'', [PInt 3])], mutable = True\<rparr>], Inr ''bar=3'')" by code_simp
  from query_transform_keeps_request_GET [OF h, of ?kw] obtain h' s
    where "query_transform_st [?P] 0 ?kw = (h', Inr s)"
      and "query_transform ([?P] ! 0) ?kw = Inr s" by blast
  with e have "query_transform ?P ?kw = Inr ''bar=3''" by simp
  with h e show ?thesis by blast
qed

subsection \<open>The form of the output\<close>

text \<open>
  C8. The returned string is the pairs of the updated container, each written as the
  quoted key, \<^verbatim>\<open>=\<close>, and the quoted string form of the value, joined by \<^verbatim>\<open>&\<close>.
  Parsing it gives these pairs back, so the quoting is a faithful percent-encoding. It
  consists of unreserved characters, \<^verbatim>\<open>%\<close>, \<^verbatim>\<open>+\<close>, \<^verbatim>\<open>=\<close> and \<^verbatim>\<open>&\<close> only; in
  particular it holds no \<^verbatim>\<open>?\<close>, so it can follow one directly.
\<close>

theorem query_transform_output_form:
  "\<exists>u s. update_loop (copy_qd P) kw = Inr u \<and> query_transform P kw = Inr s \<and>
     s = join ''&'' (map (\<lambda>(k, v). quote_plus k @ ''='' @ quote_plus (py_str v)) (pairs (entries u))) \<and>
     parse_qsl s = map (\<lambda>(k, v). (k, py_str v)) (pairs (entries u)) \<and>
     (\<forall>c \<in> set s. always_safe c \<or> c = CHR ''%'' \<or> c = CHR ''+'' \<or> c = CHR ''='' \<or> c = CHR ''&'') \<and>
     CHR ''?'' \<notin> set s"
proof -
  obtain u where u: "update_loop (copy_qd P) kw = Inr u"
    and s: "query_transform P kw = Inr (urlencode u)"
    using query_transform_updated [of P kw] by blast
  have 1: "urlencode u =
     join ''&'' (map (\<lambda>(k, v). quote_plus k @ ''='' @ quote_plus (py_str v)) (pairs (entries u)))"
    by (simp add: urlencode_def encode_pair_def)
  have 2: "parse_qsl (urlencode u) = map (\<lambda>(k, v). (k, py_str v)) (pairs (entries u))"
    by (rule parse_qsl_urlencode)
  have 3: "\<forall>c \<in> set (urlencode u).
      always_safe c \<or> c = CHR ''%'' \<or> c = CHR ''+'' \<or> c = CHR ''='' \<or> c = CHR ''&''"
    using urlencode_chars by blast
  have 4: "CHR ''?'' \<notin> set (urlencode u)"
    using urlencode_chars [of "CHR ''?''" u] not_safe_special by auto
  from u s 1 2 3 4 show ?thesis by blast
qed

theorem query_transform_output_form_witness:
  "query_transform \<lparr>entries = [(''title'', [PStr ''test 1'']), (''page'', [PStr ''1''])], mutable = False\<rparr>
     [(''page'', PInt 2)] = Inr ''title=test+1&page=2'' \<and>
   parse_qsl ''title=test+1&page=2'' = [(''title'', ''test 1''), (''page'', ''2'')] \<and>
   CHR ''?'' \<notin> set ''title=test+1&page=2''"
proof -
  let ?P = "\<lparr>entries = [(''title'', [PStr ''test 1'']), (''page'', [PStr ''1''])], mutable = False\<rparr>"
  have e: "query_transform ?P [(''page'', PInt 2)] = Inr ''title=test+1&page=2''" by code_simp
  have p: "parse_qsl ''title=test+1&page=2'' = [(''title'', ''test 1''), (''page'', ''2'')]"
    by code_simp
  from query_transform_output_form [of ?P "[(''page'', PInt 2)]"] obtain s
    where "query_transform ?P [(''page'', PInt 2)] = Inr s" and "CHR ''?'' \<notin> set s" by blast
  with e have "CHR ''?'' \<notin> set ''title=test+1&page=2''" by simp
  with e p show ?thesis by blast
qed

subsection \<open>The exceptions of the call\<close>

lemma utf8_cp_Inr_iff:
  "(\<exists>b. utf8_cp c = Inr b) \<longleftrightarrow> (c < 0xD800 \<or> (0xDFFF < c \<and> c < 0x110000))"
  by (auto simp: utf8_cp_def)

lemma utf8_encode_Inr_iff: "(\<exists>b. utf8_encode s = Inr b) \<longleftrightarrow> encodable s"
proof (induction s)
  case Nil
  show ?case by (simp add: encodable_def)
next
  case (Cons c s)
  have "encodable (c # s) \<longleftrightarrow> (\<exists>b. utf8_cp c = Inr b) \<and> encodable s"
    by (simp add: encodable_def utf8_cp_Inr_iff)
  with Cons show ?case by (auto split: sum.splits)
qed

lemma encodable_ascii: "encodable (ascii s)"
proof -
  have "(of_char c :: nat) < 0xD800" for c
    using nat_of_char_less_256 [of c] by linarith
  then show ?thesis by (simp add: encodable_def ascii_def list_all_iff)
qed

lemma str_obj_printable: "printable L v \<Longrightarrow> \<exists>t. str_obj L v = Inr t \<and> encodable t"
  by (cases v) (auto simp: encodable_ascii)

lemma encode_item_Inr:
  assumes "encodable k" and "printable L v"
  shows "\<exists>p. encode_item L k v = Inr p"
proof -
  from assms(1) obtain kb where k: "utf8_encode k = Inr kb"
    using utf8_encode_Inr_iff by blast
  from str_obj_printable [OF assms(2)] obtain t where t: "str_obj L v = Inr t" "encodable t"
    by blast
  from t(2) obtain vb where v: "utf8_encode t = Inr vb"
    using utf8_encode_Inr_iff by blast
  from k t(1) v show ?thesis by (simp add: encode_item_def)
qed

lemma encode_items_Inr:
  "list_all (\<lambda>(k, v). encodable k \<and> printable L v) ps \<Longrightarrow> \<exists>qs. encode_items L ps = Inr qs"
proof (induction ps)
  case Nil
  show ?case by simp
next
  case (Cons p ps)
  obtain k v where p: "p = (k, v)" by (cases p)
  from Cons.prems p obtain q where q: "encode_item L k v = Inr q"
    using encode_item_Inr [of k L v] by auto
  from Cons obtain qs where "encode_items L ps = Inr qs" by auto
  with q show ?case by (simp add: p)
qed

lemma list_all_update:
  "list_all Q es \<Longrightarrow> Q (k, v) \<Longrightarrow> list_all Q (AList.update k v es)"
  by (induction es) auto

lemma update_absent_key: "k \<notin> fst ` set es \<Longrightarrow> AList.update k v es = es @ [(k, v)]"
  by (induction es) auto

lemma list_all_delete: "list_all Q es \<Longrightarrow> list_all Q (AList.delete k es)"
  by (simp add: AList.delete_eq list_all_iff)

lemma update_loop_params_Inr:
  "writable u \<Longrightarrow>
   list_all (\<lambda>(k, vs). encodable k \<and> list_all (printable L) vs) (items u) \<Longrightarrow>
   list_all (\<lambda>(k, v). v \<noteq> ONone \<longrightarrow> encodable k \<and> printable L v) kw \<Longrightarrow>
   \<exists>u'. update_loop_params u kw = Inr u' \<and>
     list_all (\<lambda>(k, vs). encodable k \<and> list_all (printable L) vs) (items u')"
proof (induction kw arbitrary: u)
  case Nil
  then show ?case by simp
next
  case (Cons p kw)
  obtain k v where p: "p = (k, v)" by (cases p)
  define u1 where "u1 = u\<lparr>items := (if v \<noteq> ONone then AList.update k [v] (items u)
                          else AList.delete k (items u))\<rparr>"
  have st: "(if v \<noteq> ONone then setitem_params u k v else pop_params u k) = Inr u1"
    using Cons.prems(1) by (simp add: u1_def setitem_params_def pop_params_def)
  have 1: "writable u1" using Cons.prems(1) by (simp add: u1_def)
  have 2: "list_all (\<lambda>(k, vs). encodable k \<and> list_all (printable L) vs) (items u1)"
  proof (cases "v = ONone")
    case True
    with Cons.prems(2) show ?thesis by (simp add: u1_def list_all_delete del: AList.delete_simps)
  next
    case False
    with Cons.prems(3) p have "encodable k \<and> list_all (printable L) [v]" by simp
    with False Cons.prems(2) show ?thesis by (simp add: u1_def list_all_update)
  qed
  have 3: "list_all (\<lambda>(k, v). v \<noteq> ONone \<longrightarrow> encodable k \<and> printable L v) kw"
    using Cons.prems(3) by simp
  from Cons.IH [OF 1 2 3] st show ?case by (simp add: p)
qed

lemma list_all_item_pairs:
  "list_all (\<lambda>(k, vs). encodable k \<and> list_all (printable L) vs) es \<Longrightarrow>
   list_all (\<lambda>(k, v). encodable k \<and> printable L v) (concat (map (\<lambda>(k, vs). map (Pair k) vs) es))"
  by (induction es) (auto simp: list_all_iff)

lemma digits10_length: "10 ^ k \<le> n \<Longrightarrow> k < length (digits10 n)"
proof (induction k arbitrary: n)
  case 0
  show ?case by (subst digits10.simps) simp
next
  case (Suc k)
  then have le: "10 * 10 ^ k \<le> n" by simp
  have "(1::nat) \<le> 10 ^ k" by simp
  with le have "\<not> n < 10" by linarith
  moreover from le have "10 ^ k \<le> n div 10" by (simp add: less_eq_div_iff_mult_less_eq)
  ultimately have "10 ^ k \<le> n div 10" and "\<not> n < 10" by simp_all
  with Suc.IH [of "n div 10"] show ?case by (subst digits10.simps) simp
qed

lemma int_digits_power: "k < int_digits (10 ^ k)"
proof -
  have "nat \<bar>(10::int) ^ k\<bar> = 10 ^ k" by (simp add: nat_power_eq)
  then show ?thesis unfolding int_digits_def by (simp add: digits10_length)
qed

lemma too_many_digits_raises:
  assumes "0 < L" and "L < int_digits i"
  shows "query_transform_call L \<lparr>items = [], writable = False\<rparr> [(ascii ''n'', OInt i)]
     = Inl ValueError"
proof -
  have k: "utf8_encode (ascii ''n'') = Inr ''n''" by code_simp
  have r: "ascii ''request'' \<notin> fst ` set [(ascii ''n'', OInt i)]" by (simp add: ascii_def)
  from assms have s: "str_obj L (OInt i) = Inl ValueError" by simp
  show ?thesis
    using r k s
    by (simp add: query_transform_call_def copy_params_def setitem_params_def
        urlencode_params_def encode_item_def)
qed

lemma surrogate_raises:
  "query_transform_call L \<lparr>items = [], writable = False\<rparr> [(ascii ''q'', OStr [0xD800])]
     = Inl UnicodeEncodeError"
proof -
  have k: "utf8_encode (ascii ''q'') = Inr ''q''" by code_simp
  have r: "ascii ''request'' \<notin> fst ` set [(ascii ''q'', OStr [0xD800])]" by (simp add: ascii_def)
  have "utf8_cp 0xD800 = Inl UnicodeEncodeError" by (simp add: utf8_cp_def)
  then have s: "utf8_encode [0xD800] = Inl UnicodeEncodeError" by simp
  show ?thesis
    using r k s
    by (simp add: query_transform_call_def copy_params_def setitem_params_def
        urlencode_params_def encode_item_def)
qed

subsection \<open>No error\<close>

text \<open>
  C7, as the code has it. The call is not total over all overrides: a string value that
  holds a surrogate code point cannot be encoded and the call raises
  \<^verbatim>\<open>UnicodeEncodeError\<close>; an override named \<^verbatim>\<open>request\<close> is a \<^verbatim>\<open>TypeError\<close>;
  and under a digit limit \<open>L > 0\<close> an integer with more than \<open>L\<close> digits is a
  \<^verbatim>\<open>ValueError\<close>.
\<close>

theorem query_transform_call_raises:
  "query_transform_call 0 \<lparr>items = [], writable = False\<rparr> [(ascii ''q'', OStr [0xD800])]
     = Inl UnicodeEncodeError \<and>
   query_transform_call 0 \<lparr>items = [], writable = False\<rparr> [(ascii ''request'', OInt 1)]
     = Inl TypeError \<and>
   query_transform_call 4300 \<lparr>items = [], writable = False\<rparr> [(ascii ''n'', OInt (10 ^ 4300))]
     = Inl ValueError"
proof (intro conjI)
  show "query_transform_call 0 \<lparr>items = [], writable = False\<rparr> [(ascii ''q'', OStr [0xD800])]
     = Inl UnicodeEncodeError" by (rule surrogate_raises)
  show "query_transform_call 0 \<lparr>items = [], writable = False\<rparr> [(ascii ''request'', OInt 1)]
     = Inl TypeError" by code_simp
  show "query_transform_call 4300 \<lparr>items = [], writable = False\<rparr> [(ascii ''n'', OInt (10 ^ 4300))]
     = Inl ValueError"
    by (rule too_many_digits_raises [OF _ int_digits_power]) (rule zero_less_numeral)
qed

text \<open>
  Outside these cases the call returns a string. For every container of parameters,
  writable or not, empty or not, whose keys and values can be printed and encoded, and
  all overrides not named \<^verbatim>\<open>request\<close> whose keys and values (where the value is not
  \<^verbatim>\<open>None\<close>) can be printed and encoded, the call raises nothing. Removing a key that
  is not there is the call with no overrides, and setting a key that is not there
  encodes the container with the key appended.
\<close>

theorem query_transform_call_returns:
  assumes "ascii ''request'' \<notin> fst ` set kw"
    and "list_all (\<lambda>(k, vs). encodable k \<and> list_all (printable L) vs) (items P)"
    and "list_all (\<lambda>(k, v). v \<noteq> ONone \<longrightarrow> encodable k \<and> printable L v) kw"
  shows "(\<exists>s. query_transform_call L P kw = Inr s) \<and>
     (k \<noteq> ascii ''request'' \<and> k \<notin> fst ` set (items P) \<longrightarrow>
        query_transform_call L P [(k, ONone)] = query_transform_call L P []) \<and>
     (k \<noteq> ascii ''request'' \<and> k \<notin> fst ` set (items P) \<and> v \<noteq> ONone \<longrightarrow>
        query_transform_call L P [(k, v)] =
          urlencode_params L \<lparr>items = items P @ [(k, [v])], writable = True\<rparr>)"
proof -
  have w: "writable (copy_params P)" by (simp add: copy_params_def)
  have i: "list_all (\<lambda>(k, vs). encodable k \<and> list_all (printable L) vs) (items (copy_params P))"
    using assms(2) by (simp add: copy_params_def)
  from update_loop_params_Inr [OF w i assms(3)] obtain u
    where u: "update_loop_params (copy_params P) kw = Inr u"
      and ok: "list_all (\<lambda>(k, vs). encodable k \<and> list_all (printable L) vs) (items u)"
    by blast
  from encode_items_Inr [OF list_all_item_pairs [OF ok]] obtain qs
    where "encode_items L (concat (map (\<lambda>(k, vs). map (Pair k) vs) (items u))) = Inr qs"
    by blast
  with u assms(1) have 1: "\<exists>s. query_transform_call L P kw = Inr s"
    by (simp add: query_transform_call_def urlencode_params_def)
  have 2: "query_transform_call L P [(k, ONone)] = query_transform_call L P []"
    if "k \<noteq> ascii ''request''" "k \<notin> fst ` set (items P)"
    using that by (simp add: query_transform_call_def pop_params_def copy_params_def)
  have 3: "query_transform_call L P [(k, v)] =
          urlencode_params L \<lparr>items = items P @ [(k, [v])], writable = True\<rparr>"
    if "k \<noteq> ascii ''request''" "k \<notin> fst ` set (items P)" "v \<noteq> ONone"
    using that
    by (simp add: query_transform_call_def setitem_params_def copy_params_def update_absent_key)
  from 1 2 3 show ?thesis by blast
qed

theorem query_transform_call_returns_witness:
  "ascii ''request'' \<notin> fst ` set [(ascii ''page'', OInt 2), (ascii ''old'', ONone)] \<and>
   query_transform_call 4300 \<lparr>items = [(ascii ''q'', [OStr [99, 97, 102, 233]])], writable = False\<rparr>
     [(ascii ''page'', OInt 2), (ascii ''old'', ONone)] = Inr ''q=caf%C3%A9&page=2'' \<and>
   query_transform_call 4300 \<lparr>items = [(ascii ''q'', [OStr [99, 97, 102, 233]])], writable = False\<rparr>
     [(ascii ''old'', ONone)] = Inr ''q=caf%C3%A9'' \<and>
   query_transform_call 4300 \<lparr>items = [(ascii ''q'', [OStr [99, 97, 102, 233]])], writable = False\<rparr>
     [(ascii ''old'', OBool True)] = Inr ''q=caf%C3%A9&old=True''"
proof -
  let ?P = "\<lparr>items = [(ascii ''q'', [OStr [99, 97, 102, 233]])], writable = False\<rparr>"
  let ?kw = "[(ascii ''page'', OInt 2), (ascii ''old'', ONone)]"
  have h1: "ascii ''request'' \<notin> fst ` set ?kw" by (simp add: ascii_def)
  have h2: "list_all (\<lambda>(k, vs). encodable k \<and> list_all (printable 4300) vs) (items ?P)"
    by (simp add: encodable_ascii) (simp add: encodable_def)
  have d: "int_digits 2 = 1" by code_simp
  have h3: "list_all (\<lambda>(k, v). v \<noteq> ONone \<longrightarrow> encodable k \<and> printable 4300 v) ?kw"
    by (simp add: encodable_ascii d)
  have h4: "ascii ''old'' \<noteq> ascii ''request''" by (simp add: ascii_def)
  have h5: "ascii ''old'' \<notin> fst ` set (items ?P)" by (simp add: ascii_def)
  have e: "query_transform_call 4300 ?P ?kw = Inr ''q=caf%C3%A9&page=2''" by code_simp
  have e0: "query_transform_call 4300 ?P [] = Inr ''q=caf%C3%A9''" by code_simp
  have e1: "urlencode_params 4300
      \<lparr>items = items ?P @ [(ascii ''old'', [OBool True])], writable = True\<rparr>
        = Inr ''q=caf%C3%A9&old=True''" by code_simp
  from query_transform_call_returns [OF h1 h2 h3, of "ascii ''old''" "OBool True"] h4 h5
  have a: "query_transform_call 4300 ?P [(ascii ''old'', ONone)] = query_transform_call 4300 ?P []"
    and b: "query_transform_call 4300 ?P [(ascii ''old'', OBool True)] =
      urlencode_params 4300 \<lparr>items = items ?P @ [(ascii ''old'', [OBool True])], writable = True\<rparr>"
    by simp_all
  from a e0 have "query_transform_call 4300 ?P [(ascii ''old'', ONone)] = Inr ''q=caf%C3%A9''"
    by simp
  moreover from b e1 have "query_transform_call 4300 ?P [(ascii ''old'', OBool True)] =
      Inr ''q=caf%C3%A9&old=True''" by simp
  ultimately show ?thesis using h1 e by blast
qed

end
